theory Spec2Isabelle
  imports
    Complex_Main
    "HOL-Library.Multiset"
    "HOL-Library.List_Lexorder"
    "HOL-Library.Char_ord"
    "HOL-Library.Log_Nat"
begin

section \<open>Top-N functions aggregator (createTopNFunctions)\<close>

text \<open>
  The TypeScript type \<open>number\<close> is an IEEE 754 double. createTopNFunctions is embedded
  twice. In this section sample counts, the sampling rate and the window length are exact
  rationals, and \<open>1 / 0 = 0\<close>: this reading carries the properties that depend on the control
  flow of the function only, namely which events reach which count, the slice and the ranks
  of the rows, and the condition on the impact estimates. The section on double-precision
  arithmetic embeds the same lines with doubles, with the rounding of every operation and
  with the values \<open>Infinity\<close> and \<open>NaN\<close>; the properties about the values of the counts are
  stated there. Indices, addresses and line numbers are integers.

  The identifier types of \<open>./profiling\<close> and \<open>./frame_group\<close> are strings.
\<close>

type_synonym StackTraceID = string
type_synonym StackFrameID = string
type_synonym FileID = string
type_synonym FrameGroupID = string

text \<open>
  The interfaces \<open>StackTrace\<close>, \<open>StackFrame\<close> and \<open>Executable\<close> are declared in
  \<open>./profiling\<close>, which is not among the sources. They are given the fields that
  createTopNFunctions reads: the four parallel arrays of a stack trace, the metadata of a
  frame, and the file name of an executable.
\<close>

record StackTrace =
  FrameIDs :: "StackFrameID list"
  FileIDs :: "FileID list"
  AddressOrLines :: "int list"
  Types :: "int list"

record StackFrame =
  FileName :: string
  FunctionName :: string
  FunctionOffset :: int
  LineNumber :: int
  Inline :: bool

datatype Executable = Executable (ExeFileName: string)

text \<open>The accumulator entry, interface \<open>TopNFunctionAndFrameGroup\<close>.\<close>

record 'meta TopNFunctionAndFrameGroup =
  Frame :: 'meta
  FrameGroupID :: FrameGroupID
  CountExclusive :: rat
  CountInclusive :: rat

text \<open>
  A returned row, type \<open>TopNFunction\<close>. The fields the row shares by name with the
  accumulator entry and with the report carry the prefix \<open>Row\<close>; an absent optional field
  (\<open>undefined\<close>) is \<open>None\<close>.
\<close>

record ('meta, 'imp) TopNFunction =
  Rank :: nat
  RowFrame :: 'meta
  RowCountExclusive :: rat
  RowSelfCPUPerc :: rat
  RowCountInclusive :: rat
  RowTotalCPUPerc :: rat
  RowId :: string
  RowImpactEstimates :: "'imp option"

text \<open>The report, interface \<open>TopNFunctions\<close>.\<close>

record ('meta, 'imp) TopNFunctions =
  TotalCount :: rat
  TopN :: "('meta, 'imp) TopNFunction list"
  SamplingRate :: rat
  impactEstimates :: "'imp option"
  selfCPUPerc :: rat
  totalCPUPerc :: rat

text \<open>
  What createTopNFunctions imports and calls but the sources do not contain, taken as
  parameters: \<open>createFrameGroupID\<close> (from \<open>./frame_group\<close>), \<open>createStackFrameMetadata\<close> and
  the three placeholder records (from \<open>./profiling\<close>), \<open>calculateImpactEstimates\<close>, and the
  host's \<open>String.prototype.localeCompare\<close>. The arguments of
  \<open>createStackFrameMetadata\<close> are the fields of its object literal in the order written:
  FrameID, FileID, AddressOrLine, FrameType, Inline, FunctionName, FunctionOffset, SourceLine,
  SourceFilename, ExeFileName. Those of \<open>calculateImpactEstimates\<close> are countExclusive,
  countInclusive, totalSamples, totalSeconds.
\<close>

record ('meta, 'imp) deps =
  createFrameGroupID ::
    "FileID option \<Rightarrow> int option \<Rightarrow> string \<Rightarrow> string \<Rightarrow> string \<Rightarrow> FrameGroupID"
  createStackFrameMetadata ::
    "StackFrameID \<Rightarrow> FileID option \<Rightarrow> int option \<Rightarrow> int option \<Rightarrow> bool \<Rightarrow> string \<Rightarrow>
     int \<Rightarrow> int \<Rightarrow> string \<Rightarrow> string \<Rightarrow> 'meta"
  calculateImpactEstimates :: "rat \<Rightarrow> rat \<Rightarrow> rat \<Rightarrow> rat \<Rightarrow> 'imp"
  emptyStackTrace :: StackTrace
  emptyStackFrame :: StackFrame
  emptyExecutable :: Executable
  localeCompare :: "string \<Rightarrow> string \<Rightarrow> int"

text \<open>The argument object of createTopNFunctions. A \<open>Map\<close> that is only looked up is a
  partial function; \<open>events\<close> is iterated, so it is the list of its entries in insertion
  order.\<close>

record params =
  endIndex :: int
  events :: "(StackTraceID \<times> rat) list"
  executables :: "FileID \<rightharpoonup> Executable"
  samplingRate :: rat
  stackFrames :: "StackFrameID \<rightharpoonup> StackFrame"
  stackTraces :: "StackTraceID \<rightharpoonup> StackTrace"
  startIndex :: int
  totalSeconds :: rat

text \<open>An array read \<open>xs[i]\<close>: out of range it yields \<open>undefined\<close>.\<close>

definition arrayGet :: "'a list \<Rightarrow> nat \<Rightarrow> 'a option" where
  "arrayGet xs i = (if i < length xs then Some (xs ! i) else None)"

text \<open>
  The map \<open>topNFunctions\<close> is a list of key-value pairs in insertion order, since
  \<open>[...topNFunctions.values()]\<close> depends on that order. Its values are objects shared with
  the loop variable \<open>topNFunction\<close>, so \<open>topNFunction.CountInclusive += scaledCount\<close> changes
  the entry stored under the key: \<open>modify\<close>.
\<close>

definition modify :: "'k \<Rightarrow> ('v \<Rightarrow> 'v) \<Rightarrow> ('k \<times> 'v) list \<Rightarrow> ('k \<times> 'v) list" where
  "modify k f m = map (\<lambda>(k', v). if k' = k then (k', f v) else (k', v)) m"

text \<open>The body of the loop over the frame positions \<open>i\<close> of one stack trace (lines 92-142).
  The state is the map \<open>topNFunctions\<close> and the set \<open>uniqueFrameGroupsPerEvent\<close>.\<close>

definition frameStep ::
  "('meta, 'imp) deps \<Rightarrow> (StackFrameID \<rightharpoonup> StackFrame) \<Rightarrow> (FileID \<rightharpoonup> Executable) \<Rightarrow>
   StackTrace \<Rightarrow> nat \<Rightarrow> rat \<Rightarrow> nat \<Rightarrow>
   (FrameGroupID \<times> 'meta TopNFunctionAndFrameGroup) list \<times> FrameGroupID set \<Rightarrow>
   (FrameGroupID \<times> 'meta TopNFunctionAndFrameGroup) list \<times> FrameGroupID set" where
  "frameStep d stackFrames' executables' stackTrace lenStackTrace scaledCount i st =
    (case st of (topNFunctions, uniqueFrameGroupsPerEvent) \<Rightarrow>
      let frameID = FrameIDs stackTrace ! i;
          fileID = arrayGet (FileIDs stackTrace) i;
          addressOrLine = arrayGet (AddressOrLines stackTrace) i;
          frame = (case stackFrames' frameID of None \<Rightarrow> emptyStackFrame d | Some f \<Rightarrow> f);
          executable = (case Option.bind fileID executables' of
                          None \<Rightarrow> emptyExecutable d | Some e \<Rightarrow> e);
          frameGroupID = createFrameGroupID d fileID addressOrLine (ExeFileName executable)
                           (FileName frame) (FunctionName frame);
          topN1 = (case map_of topNFunctions frameGroupID of
                     None \<Rightarrow> topNFunctions @
                       [(frameGroupID,
                         \<lparr>Frame = createStackFrameMetadata d frameID fileID addressOrLine
                                    (arrayGet (Types stackTrace) i) (Inline frame) (FunctionName frame)
                                    (FunctionOffset frame) (LineNumber frame) (FileName frame)
                                    (ExeFileName executable),
                          FrameGroupID = frameGroupID,
                          CountExclusive = 0,
                          CountInclusive = 0\<rparr>)]
                   | Some _ \<Rightarrow> topNFunctions);
          topN2 = (if frameGroupID \<notin> uniqueFrameGroupsPerEvent
                   then modify frameGroupID
                          (\<lambda>e. e\<lparr>CountInclusive := CountInclusive e + scaledCount\<rparr>) topN1
                   else topN1);
          unique2 = (if frameGroupID \<notin> uniqueFrameGroupsPerEvent
                     then insert frameGroupID uniqueFrameGroupsPerEvent
                     else uniqueFrameGroupsPerEvent);
          topN3 = (if int i = int lenStackTrace - 1
                   then modify frameGroupID
                          (\<lambda>e. e\<lparr>CountExclusive := CountExclusive e + scaledCount\<rparr>) topN2
                   else topN2)
      in (topN3, unique2))"

text \<open>The body of the loop over the events (lines 82-143). The state is \<open>totalCount\<close> and
  the map \<open>topNFunctions\<close>; the set \<open>uniqueFrameGroupsPerEvent\<close> starts empty for each
  event.\<close>

definition eventStep ::
  "('meta, 'imp) deps \<Rightarrow> (StackFrameID \<rightharpoonup> StackFrame) \<Rightarrow> (FileID \<rightharpoonup> Executable) \<Rightarrow>
   (StackTraceID \<rightharpoonup> StackTrace) \<Rightarrow> rat \<Rightarrow> StackTraceID \<times> rat \<Rightarrow>
   rat \<times> (FrameGroupID \<times> 'meta TopNFunctionAndFrameGroup) list \<Rightarrow>
   rat \<times> (FrameGroupID \<times> 'meta TopNFunctionAndFrameGroup) list" where
  "eventStep d stackFrames' executables' stackTraces' scalingFactor ev st =
    (case ev of (stackTraceID, count') \<Rightarrow>
     case st of (totalCount, topNFunctions) \<Rightarrow>
      let scaledCount = count' * scalingFactor;
          totalCount' = totalCount + scaledCount;
          stackTrace = (case stackTraces' stackTraceID of
                          None \<Rightarrow> emptyStackTrace d | Some t \<Rightarrow> t);
          lenStackTrace = length (FrameIDs stackTrace)
      in (totalCount',
          fst (fold (frameStep d stackFrames' executables' stackTrace lenStackTrace scaledCount)
                 [0..<lenStackTrace] (topNFunctions, {}))))"

text \<open>Lines 76-143: \<open>totalCount\<close> and \<open>topNFunctions\<close> after all events.\<close>

definition accumulate ::
  "('meta, 'imp) deps \<Rightarrow> params \<Rightarrow>
   rat \<times> (FrameGroupID \<times> 'meta TopNFunctionAndFrameGroup) list" where
  "accumulate d p =
    (let scalingFactor = 1 / samplingRate p
     in fold (eventStep d (stackFrames p) (executables p) (stackTraces p) scalingFactor)
          (events p) (0, []))"

text \<open>
  \<open>Array.prototype.sort\<close> with a comparison function: the sort is stable, and an element
  \<open>x\<close> goes before \<open>y\<close> when \<open>cmp x y\<close> is negative. Insertion from the right, each element
  placed before the first one it does not exceed, is such a sort.
\<close>

fun insertBy :: "('a \<Rightarrow> 'a \<Rightarrow> int) \<Rightarrow> 'a \<Rightarrow> 'a list \<Rightarrow> 'a list" where
  "insertBy cmp x [] = [x]"
| "insertBy cmp x (y # ys) = (if cmp x y \<le> 0 then x # y # ys else y # insertBy cmp x ys)"

fun sortBy :: "('a \<Rightarrow> 'a \<Rightarrow> int) \<Rightarrow> 'a list \<Rightarrow> 'a list" where
  "sortBy cmp [] = []"
| "sortBy cmp (x # xs) = insertBy cmp x (sortBy cmp xs)"

text \<open>The comparison function of lines 149-157.\<close>

definition compareTopN ::
  "(string \<Rightarrow> string \<Rightarrow> int) \<Rightarrow> 'meta TopNFunctionAndFrameGroup \<Rightarrow>
   'meta TopNFunctionAndFrameGroup \<Rightarrow> int" where
  "compareTopN lc a b =
    (if CountExclusive a > CountExclusive b then 1
     else if CountExclusive a < CountExclusive b then - 1
     else lc (FrameGroupID a) (FrameGroupID b))"

text \<open>Lines 147-158: the values of the map, sorted, then reversed.\<close>

definition rankTopN ::
  "(string \<Rightarrow> string \<Rightarrow> int) \<Rightarrow> (FrameGroupID \<times> 'meta TopNFunctionAndFrameGroup) list \<Rightarrow>
   'meta TopNFunctionAndFrameGroup list" where
  "rankTopN lc topNFunctions = rev (sortBy (compareTopN lc) (map snd topNFunctions))"

text \<open>
  \<open>Array.prototype.slice(start, end)\<close> on integers: a negative index counts from the end
  of the array, each index is then kept within \<open>0 .. length\<close>, and the result is empty when
  the end is not after the start.
\<close>

definition slice :: "'a list \<Rightarrow> int \<Rightarrow> int \<Rightarrow> 'a list" where
  "slice xs start end' =
    (let len = int (length xs);
         k = (if start < 0 then max (len + start) 0 else min start len);
         final = (if end' < 0 then max (len + end') 0 else min end' len)
     in take (nat (final - k)) (drop (nat k) xs))"

text \<open>Lines 160-165: the two indices after the clamping.\<close>

definition clampIndex :: "int \<Rightarrow> nat \<Rightarrow> int" where
  "clampIndex idx len = (if idx > int len then int len else idx)"

text \<open>Lines 167-192: the callback of \<open>map\<close>, with the index \<open>i\<close> of the row in the slice.\<close>

definition makeRow ::
  "('meta, 'imp) deps \<Rightarrow> rat \<Rightarrow> rat \<Rightarrow> nat \<times> 'meta TopNFunctionAndFrameGroup \<Rightarrow>
   ('meta, 'imp) TopNFunction" where
  "makeRow d totalCount totalSeconds' ix =
    (case ix of (i, frameAndCount) \<Rightarrow>
      let countExclusive = CountExclusive frameAndCount;
          countInclusive = CountInclusive frameAndCount;
          totalCPUPerc' = (countInclusive / totalCount) * 100;
          selfCPUPerc' = (countExclusive / totalCount) * 100;
          impactEstimates' =
            (if totalSeconds' > 0
             then Some (calculateImpactEstimates d countExclusive countInclusive totalCount
                          totalSeconds')
             else None)
      in \<lparr>Rank = i + 1,
          RowFrame = Frame frameAndCount,
          RowCountExclusive = countExclusive,
          RowSelfCPUPerc = selfCPUPerc',
          RowCountInclusive = countInclusive,
          RowTotalCPUPerc = totalCPUPerc',
          RowId = FrameGroupID frameAndCount,
          RowImpactEstimates = impactEstimates'\<rparr>)"

text \<open>The whole function (lines 52-217).\<close>

definition createTopNFunctions ::
  "('meta, 'imp) deps \<Rightarrow> params \<Rightarrow> ('meta, 'imp) TopNFunctions" where
  "createTopNFunctions d p =
    (case accumulate d p of (totalCount, topNFunctions) \<Rightarrow>
      let topN = rankTopN (localeCompare d) topNFunctions;
          startIndex' = clampIndex (startIndex p) (length topN);
          endIndex' = clampIndex (endIndex p) (length topN);
          framesAndCountsAndIds =
            map (makeRow d totalCount (totalSeconds p))
              (enumerate 0 (slice topN startIndex' endIndex'));
          sumSelfCPU = sum_list (map RowCountExclusive framesAndCountsAndIds);
          selfCPUPerc' = (sumSelfCPU / totalCount) * 100;
          sumTotalCPU = sum_list (map RowCountInclusive framesAndCountsAndIds);
          totalCPUPerc' = (sumTotalCPU / totalCount) * 100;
          impactEstimates' =
            (if totalSeconds p > 0
             then Some (calculateImpactEstimates d sumSelfCPU sumTotalCPU totalCount
                          (totalSeconds p))
             else None)
      in \<lparr>TotalCount = totalCount,
          TopN = framesAndCountsAndIds,
          SamplingRate = samplingRate p,
          impactEstimates = impactEstimates',
          selfCPUPerc = selfCPUPerc',
          totalCPUPerc = totalCPUPerc'\<rparr>)"

section \<open>Notions used to state the properties of createTopNFunctions\<close>

text \<open>The frame group computed at position \<open>i\<close> of a stack trace (lines 93-105), and the
  entry created for it when the map has none (lines 110-128).\<close>

definition frameGroupAt ::
  "('meta, 'imp) deps \<Rightarrow> (StackFrameID \<rightharpoonup> StackFrame) \<Rightarrow> (FileID \<rightharpoonup> Executable) \<Rightarrow>
   StackTrace \<Rightarrow> nat \<Rightarrow> FrameGroupID" where
  "frameGroupAt d stackFrames' executables' stackTrace i =
    (let frameID = FrameIDs stackTrace ! i;
         fileID = arrayGet (FileIDs stackTrace) i;
         addressOrLine = arrayGet (AddressOrLines stackTrace) i;
         frame = (case stackFrames' frameID of None \<Rightarrow> emptyStackFrame d | Some f \<Rightarrow> f);
         executable = (case Option.bind fileID executables' of
                         None \<Rightarrow> emptyExecutable d | Some e \<Rightarrow> e)
     in createFrameGroupID d fileID addressOrLine (ExeFileName executable)
          (FileName frame) (FunctionName frame))"

definition newEntry ::
  "('meta, 'imp) deps \<Rightarrow> (StackFrameID \<rightharpoonup> StackFrame) \<Rightarrow> (FileID \<rightharpoonup> Executable) \<Rightarrow>
   StackTrace \<Rightarrow> nat \<Rightarrow> 'meta TopNFunctionAndFrameGroup" where
  "newEntry d stackFrames' executables' stackTrace i =
    (let frameID = FrameIDs stackTrace ! i;
         fileID = arrayGet (FileIDs stackTrace) i;
         addressOrLine = arrayGet (AddressOrLines stackTrace) i;
         frame = (case stackFrames' frameID of None \<Rightarrow> emptyStackFrame d | Some f \<Rightarrow> f);
         executable = (case Option.bind fileID executables' of
                         None \<Rightarrow> emptyExecutable d | Some e \<Rightarrow> e)
     in \<lparr>Frame = createStackFrameMetadata d frameID fileID addressOrLine
                 (arrayGet (Types stackTrace) i) (Inline frame) (FunctionName frame)
                 (FunctionOffset frame) (LineNumber frame) (FileName frame)
                 (ExeFileName executable),
         FrameGroupID = frameGroupAt d stackFrames' executables' stackTrace i,
         CountExclusive = 0,
         CountInclusive = 0\<rparr>)"

text \<open>The map after the lookup-or-create of lines 107-131.\<close>

definition ensured :: "'k \<Rightarrow> 'v \<Rightarrow> ('k \<times> 'v) list \<Rightarrow> ('k \<times> 'v) list" where
  "ensured g e m = (case map_of m g of None \<Rightarrow> m @ [(g, e)] | Some _ \<Rightarrow> m)"

text \<open>The frame groups of a stack trace by position, the stack trace an event resolves to
  (line 89), and the frame groups of an event's stack trace.\<close>

definition frameGroups ::
  "('meta, 'imp) deps \<Rightarrow> (StackFrameID \<rightharpoonup> StackFrame) \<Rightarrow> (FileID \<rightharpoonup> Executable) \<Rightarrow>
   StackTrace \<Rightarrow> FrameGroupID list" where
  "frameGroups d stackFrames' executables' stackTrace =
    map (frameGroupAt d stackFrames' executables' stackTrace) [0..<length (FrameIDs stackTrace)]"

definition traceOf :: "('meta, 'imp) deps \<Rightarrow> params \<Rightarrow> StackTraceID \<Rightarrow> StackTrace" where
  "traceOf d p stackTraceID =
    (case stackTraces p stackTraceID of None \<Rightarrow> emptyStackTrace d | Some t \<Rightarrow> t)"

definition groupsOf :: "('meta, 'imp) deps \<Rightarrow> params \<Rightarrow> StackTraceID \<Rightarrow> FrameGroupID list" where
  "groupsOf d p stackTraceID =
    frameGroups d (stackFrames p) (executables p) (traceOf d p stackTraceID)"

text \<open>The scaled count of an event (line 84), and what one event adds to the inclusive and
  to the exclusive count of the frame group \<open>g\<close>.\<close>

definition scaled :: "params \<Rightarrow> rat \<Rightarrow> rat" where
  "scaled p c = c * (1 / samplingRate p)"

definition inclusiveShare ::
  "('meta, 'imp) deps \<Rightarrow> params \<Rightarrow> FrameGroupID \<Rightarrow> StackTraceID \<times> rat \<Rightarrow> rat" where
  "inclusiveShare d p g ev = (if g \<in> set (groupsOf d p (fst ev)) then scaled p (snd ev) else 0)"

definition exclusiveShare ::
  "('meta, 'imp) deps \<Rightarrow> params \<Rightarrow> FrameGroupID \<Rightarrow> StackTraceID \<times> rat \<Rightarrow> rat" where
  "exclusiveShare d p g ev =
    (if groupsOf d p (fst ev) \<noteq> [] \<and> last (groupsOf d p (fst ev)) = g then scaled p (snd ev) else 0)"

text \<open>The counts stored in the map for a frame group, zero when it has no entry.\<close>

definition inclusiveOf :: "(FrameGroupID \<times> 'meta TopNFunctionAndFrameGroup) list \<Rightarrow> FrameGroupID \<Rightarrow> rat" where
  "inclusiveOf m g = (case map_of m g of None \<Rightarrow> 0 | Some e \<Rightarrow> CountInclusive e)"

definition exclusiveOf :: "(FrameGroupID \<times> 'meta TopNFunctionAndFrameGroup) list \<Rightarrow> FrameGroupID \<Rightarrow> rat" where
  "exclusiveOf m g = (case map_of m g of None \<Rightarrow> 0 | Some e \<Rightarrow> CountExclusive e)"

text \<open>
  The single comparison function the ranking is compared with: descending by exclusive
  count, ties broken by descending order of the FrameGroupID string. It follows the words of
  the specification, not the source.
\<close>

definition compareDescending ::
  "(string \<Rightarrow> string \<Rightarrow> int) \<Rightarrow> 'meta TopNFunctionAndFrameGroup \<Rightarrow>
   'meta TopNFunctionAndFrameGroup \<Rightarrow> int" where
  "compareDescending lc a b =
    (if CountExclusive a > CountExclusive b then - 1
     else if CountExclusive a < CountExclusive b then 1
     else lc (FrameGroupID b) (FrameGroupID a))"

definition rankDescending ::
  "(string \<Rightarrow> string \<Rightarrow> int) \<Rightarrow> (FrameGroupID \<times> 'meta TopNFunctionAndFrameGroup) list \<Rightarrow>
   'meta TopNFunctionAndFrameGroup list" where
  "rankDescending lc topNFunctions = sortBy (compareDescending lc) (map snd topNFunctions)"

text \<open>
  What the ranking needs of the string comparison: a negative result one way is a positive
  result the other way, and the results that are not positive are transitive. This is a
  consistent comparison function in the sense of \<open>Array.prototype.sort\<close>; it may return
  zero on two different strings.
\<close>

definition consistentCompare :: "(string \<Rightarrow> string \<Rightarrow> int) \<Rightarrow> bool" where
  "consistentCompare lc \<longleftrightarrow>
    (\<forall>a b. lc a b < 0 \<longleftrightarrow> 0 < lc b a) \<and>
    (\<forall>a b c. lc a b \<le> 0 \<and> lc b c \<le> 0 \<longrightarrow> lc a c \<le> 0)"

text \<open>The comparison returns zero on no two of the strings at different positions.\<close>

definition pairwiseNonEquivalent :: "(string \<Rightarrow> string \<Rightarrow> int) \<Rightarrow> string list \<Rightarrow> bool" where
  "pairwiseNonEquivalent lc ids \<longleftrightarrow>
    (\<forall>i<length ids. \<forall>j<length ids. i \<noteq> j \<longrightarrow> lc (ids ! i) (ids ! j) \<noteq> 0)"

text \<open>The lexicographic order of strings by character code, as a comparison function.\<close>

definition lexicographicCompare :: "string \<Rightarrow> string \<Rightarrow> int" where
  "lexicographicCompare a b = (if a < b then - 1 else if b < a then 1 else 0)"

text \<open>
  A comparison that, like the collation of the host's \<open>localeCompare\<close>, ignores the soft
  hyphen (character code \<open>0xAD\<close>): the strings are compared without it.
\<close>

definition ignorableCompare :: "string \<Rightarrow> string \<Rightarrow> int" where
  "ignorableCompare a b =
    lexicographicCompare (filter (\<lambda>c. c \<noteq> CHR 0xAD) a) (filter (\<lambda>c. c \<noteq> CHR 0xAD) b)"

subsection \<open>A concrete input\<close>

text \<open>
  Frame groups are keyed by the function name here. The stack trace \<open>T1\<close> has the frames of
  the functions A, B, C, the stack trace \<open>T2\<close> those of A, A, B and \<open>T5\<close> those of A to E.
\<close>

definition exampleFrame :: "string \<Rightarrow> string \<Rightarrow> StackFrame" where
  "exampleFrame file fn =
    \<lparr>FileName = file, FunctionName = fn, FunctionOffset = 0, LineNumber = 1, Inline = False\<rparr>"

definition exampleTrace :: "StackFrameID list \<Rightarrow> StackTrace" where
  "exampleTrace ids =
    \<lparr>FrameIDs = ids, FileIDs = map (\<lambda>_. ''exe'') ids, AddressOrLines = map (\<lambda>_. 0) ids,
     Types = map (\<lambda>_. 3) ids\<rparr>"

definition exampleDeps :: "(string, rat) deps" where
  "exampleDeps =
    \<lparr>createFrameGroupID = (\<lambda>fileID addressOrLine exeFileName fileName functionName. functionName),
     createStackFrameMetadata =
       (\<lambda>frameID fileID addressOrLine frameType inline functionName functionOffset sourceLine
          sourceFilename exeFileName. functionName),
     calculateImpactEstimates = (\<lambda>countExclusive countInclusive totalSamples seconds.
        countExclusive / seconds),
     emptyStackTrace = exampleTrace [],
     emptyStackFrame = exampleFrame [] [],
     emptyExecutable = Executable [],
     localeCompare = lexicographicCompare\<rparr>"

definition exampleParams :: params where
  "exampleParams =
    \<lparr>endIndex = 10,
     events = [(''T1'', 10)],
     executables = Map.empty,
     samplingRate = 1,
     stackFrames = [''fa'' \<mapsto> exampleFrame ''a.c'' ''A'', ''fb'' \<mapsto> exampleFrame ''b.c'' ''B'',
                    ''fc'' \<mapsto> exampleFrame ''c.c'' ''C'', ''fd'' \<mapsto> exampleFrame ''d.c'' ''D'',
                    ''fe'' \<mapsto> exampleFrame ''e.c'' ''E''],
     stackTraces = [''T1'' \<mapsto> exampleTrace [''fa'', ''fb'', ''fc''],
                    ''T2'' \<mapsto> exampleTrace [''fa'', ''fa'', ''fb''],
                    ''T5'' \<mapsto> exampleTrace [''fa'', ''fb'', ''fc'', ''fd'', ''fe'']],
     startIndex = 0,
     totalSeconds = 0\<rparr>"

text \<open>The map \<open>topNFunctions\<close> that the concrete input leaves after the loop.\<close>

definition exampleAccumulator :: "(FrameGroupID \<times> string TopNFunctionAndFrameGroup) list" where
  "exampleAccumulator =
    [(''A'', \<lparr>Frame = ''A'', FrameGroupID = ''A'', CountExclusive = 0, CountInclusive = 10\<rparr>),
     (''B'', \<lparr>Frame = ''B'', FrameGroupID = ''B'', CountExclusive = 0, CountInclusive = 10\<rparr>),
     (''C'', \<lparr>Frame = ''C'', FrameGroupID = ''C'', CountExclusive = 10, CountInclusive = 10\<rparr>)]"

text \<open>
  A second input: the stack trace \<open>T1\<close> has the frames of the functions \<open>A\<close>, \<open>A\<close> followed
  by a soft hyphen, and \<open>C\<close>, and the strings are compared by \<open>ignorableCompare\<close>.
\<close>

definition tieDeps :: "(string, rat) deps" where
  "tieDeps = exampleDeps\<lparr>localeCompare := ignorableCompare\<rparr>"

definition tieParams :: params where
  "tieParams =
    exampleParams
      \<lparr>stackFrames := [''fa'' \<mapsto> exampleFrame ''a.c'' ''A'',
                       ''fs'' \<mapsto> exampleFrame ''s.c'' (''A'' @ [CHR 0xAD]),
                       ''fc'' \<mapsto> exampleFrame ''c.c'' ''C''],
       stackTraces := [''T1'' \<mapsto> exampleTrace [''fa'', ''fs'', ''fc'']]\<rparr>"

section \<open>createTopNFunctions in double-precision arithmetic\<close>

subsection \<open>The type \<open>number\<close>\<close>

text \<open>
  A value of the type \<open>number\<close> is a finite double, given by the rational it denotes,
  \<open>Infinity\<close>, \<open>-Infinity\<close> or \<open>NaN\<close>. The two zeros are one value here. The sign of a
  zero shows only when a number is divided by it; the function divides by the sampling rate,
  where a zero is taken to be \<open>+0\<close>, and by \<open>totalCount\<close>, a sum that starts at \<open>+0\<close> and is
  therefore never \<open>-0\<close>.
\<close>

datatype number = Finite rat | PosInf | NegInf | NaN

text \<open>
  The integer \<open>k\<close> with \<open>2 ^ k \<le> x < 2 ^ (k + 1)\<close>, for a positive \<open>x\<close>: the binary
  exponent of \<open>x\<close>.
\<close>

definition ilog2 :: "rat \<Rightarrow> int" where
  "ilog2 x = (if 1 \<le> x then bitlen \<lfloor>x\<rfloor> - 1 else - bitlen (\<lceil>1 / x\<rceil> - 1))"

text \<open>Rounding to the nearest integer, a tie going to the even one.\<close>

definition roundHalfEven :: "rat \<Rightarrow> int" where
  "roundHalfEven q =
    (let f = \<lfloor>q\<rfloor>; r = q - of_int f
     in if r < 1 / 2 then f else if 1 / 2 < r then f + 1 else if even f then f else f + 1)"

text \<open>
  The finite doubles are the numbers \<open>m * 2 ^ e\<close> with \<open>\<bar>m\<bar> < 2 ^ 53\<close> and
  \<open>- 1074 \<le> e \<le> 971\<close>. Around a positive \<open>x\<close> they are spaced by \<open>2 ^ exponentOf x\<close>: 53
  significant bits, and the fixed spacing \<open>2 ^ - 1074\<close> of the subnormal range. \<open>nearest x\<close>
  is the multiple of that spacing nearest to \<open>x\<close>, a tie going to the even multiple.
\<close>

definition exponentOf :: "rat \<Rightarrow> int" where
  "exponentOf x = max (ilog2 x - 52) (- 1074)"

definition nearest :: "rat \<Rightarrow> rat" where
  "nearest x = of_int (roundHalfEven (x / power_int 2 (exponentOf x))) * power_int 2 (exponentOf x)"

text \<open>
  The result of an arithmetic operation whose exact value is \<open>x\<close> (rounding to nearest,
  ties to even): the nearest double, and an infinity when that reaches \<open>2 ^ 1024\<close>.
\<close>

definition roundPos :: "rat \<Rightarrow> number" where
  "roundPos x = (if 2 ^ 1024 \<le> nearest x then PosInf else Finite (nearest x))"

definition roundDouble :: "rat \<Rightarrow> number" where
  "roundDouble x =
    (if x = 0 then Finite 0
     else if 0 < x then roundPos x
     else (case roundPos (- x) of Finite v \<Rightarrow> Finite (- v) | _ \<Rightarrow> NegInf))"

text \<open>
  The operators \<open>+\<close>, \<open>*\<close> and \<open>/\<close> on numbers. \<open>NaN\<close> is absorbing, and so are the results
  without a value: \<open>Infinity - Infinity\<close>, \<open>0 * Infinity\<close>, \<open>0 / 0\<close> and
  \<open>Infinity / Infinity\<close>.
\<close>

fun jsAdd :: "number \<Rightarrow> number \<Rightarrow> number" where
  "jsAdd (Finite a) (Finite b) = roundDouble (a + b)"
| "jsAdd NaN _ = NaN"
| "jsAdd _ NaN = NaN"
| "jsAdd PosInf NegInf = NaN"
| "jsAdd NegInf PosInf = NaN"
| "jsAdd PosInf _ = PosInf"
| "jsAdd _ PosInf = PosInf"
| "jsAdd NegInf _ = NegInf"
| "jsAdd _ NegInf = NegInf"

fun jsMul :: "number \<Rightarrow> number \<Rightarrow> number" where
  "jsMul (Finite a) (Finite b) = roundDouble (a * b)"
| "jsMul NaN _ = NaN"
| "jsMul _ NaN = NaN"
| "jsMul PosInf (Finite b) = (if b = 0 then NaN else if 0 < b then PosInf else NegInf)"
| "jsMul NegInf (Finite b) = (if b = 0 then NaN else if 0 < b then NegInf else PosInf)"
| "jsMul (Finite a) PosInf = (if a = 0 then NaN else if 0 < a then PosInf else NegInf)"
| "jsMul (Finite a) NegInf = (if a = 0 then NaN else if 0 < a then NegInf else PosInf)"
| "jsMul PosInf PosInf = PosInf"
| "jsMul NegInf NegInf = PosInf"
| "jsMul PosInf NegInf = NegInf"
| "jsMul NegInf PosInf = NegInf"

fun jsDiv :: "number \<Rightarrow> number \<Rightarrow> number" where
  "jsDiv (Finite a) (Finite b) =
    (if b = 0 then (if a = 0 then NaN else if 0 < a then PosInf else NegInf)
     else roundDouble (a / b))"
| "jsDiv NaN _ = NaN"
| "jsDiv _ NaN = NaN"
| "jsDiv (Finite a) _ = Finite 0"
| "jsDiv PosInf (Finite b) = (if 0 \<le> b then PosInf else NegInf)"
| "jsDiv NegInf (Finite b) = (if 0 \<le> b then NegInf else PosInf)"
| "jsDiv _ _ = NaN"

text \<open>The comparisons \<open><\<close>, \<open>>\<close> and \<open><=\<close>: false as soon as an operand is \<open>NaN\<close>.\<close>

fun jsLt :: "number \<Rightarrow> number \<Rightarrow> bool" where
  "jsLt (Finite a) (Finite b) = (a < b)"
| "jsLt NaN _ = False"
| "jsLt _ NaN = False"
| "jsLt _ NegInf = False"
| "jsLt PosInf _ = False"
| "jsLt _ _ = True"

definition jsGt :: "number \<Rightarrow> number \<Rightarrow> bool" where
  "jsGt a b = jsLt b a"

fun jsLe :: "number \<Rightarrow> number \<Rightarrow> bool" where
  "jsLe (Finite a) (Finite b) = (a \<le> b)"
| "jsLe NaN _ = False"
| "jsLe _ NaN = False"
| "jsLe NegInf _ = True"
| "jsLe _ PosInf = True"
| "jsLe _ _ = False"

subsection \<open>The function\<close>

text \<open>
  The records and the function of the first section again, line by line, with every
  \<open>number\<close> a double: the names carry the suffix \<open>D\<close>. The literals \<open>0\<close>, \<open>1.0\<close> and \<open>100\<close>
  are doubles. The parameters of the first section are used again, except
  \<open>calculateImpactEstimates\<close>, which takes doubles and is given separately.
\<close>

record 'meta TopNFunctionAndFrameGroupD =
  FrameD :: 'meta
  FrameGroupIDD :: FrameGroupID
  CountExclusiveD :: number
  CountInclusiveD :: number

record ('meta, 'imp) TopNFunctionD =
  RankD :: nat
  RowFrameD :: 'meta
  RowCountExclusiveD :: number
  RowSelfCPUPercD :: number
  RowCountInclusiveD :: number
  RowTotalCPUPercD :: number
  RowIdD :: string
  RowImpactEstimatesD :: "'imp option"

record ('meta, 'imp) TopNFunctionsD =
  TotalCountD :: number
  TopND :: "('meta, 'imp) TopNFunctionD list"
  SamplingRateD :: number
  impactEstimatesD :: "'imp option"
  selfCPUPercD :: number
  totalCPUPercD :: number

record paramsD =
  endIndexD :: int
  eventsD :: "(StackTraceID \<times> number) list"
  executablesD :: "FileID \<rightharpoonup> Executable"
  samplingRateD :: number
  stackFramesD :: "StackFrameID \<rightharpoonup> StackFrame"
  stackTracesD :: "StackTraceID \<rightharpoonup> StackTrace"
  startIndexD :: int
  totalSecondsD :: number

text \<open>The body of the loop over the frame positions of one stack trace (lines 92-142).\<close>

definition frameStepD ::
  "('meta, 'imp) deps \<Rightarrow> (StackFrameID \<rightharpoonup> StackFrame) \<Rightarrow> (FileID \<rightharpoonup> Executable) \<Rightarrow>
   StackTrace \<Rightarrow> nat \<Rightarrow> number \<Rightarrow> nat \<Rightarrow>
   (FrameGroupID \<times> 'meta TopNFunctionAndFrameGroupD) list \<times> FrameGroupID set \<Rightarrow>
   (FrameGroupID \<times> 'meta TopNFunctionAndFrameGroupD) list \<times> FrameGroupID set" where
  "frameStepD d stackFrames' executables' stackTrace lenStackTrace scaledCount i st =
    (case st of (topNFunctions, uniqueFrameGroupsPerEvent) \<Rightarrow>
      let frameID = FrameIDs stackTrace ! i;
          fileID = arrayGet (FileIDs stackTrace) i;
          addressOrLine = arrayGet (AddressOrLines stackTrace) i;
          frame = (case stackFrames' frameID of None \<Rightarrow> emptyStackFrame d | Some f \<Rightarrow> f);
          executable = (case Option.bind fileID executables' of
                          None \<Rightarrow> emptyExecutable d | Some e \<Rightarrow> e);
          frameGroupID = createFrameGroupID d fileID addressOrLine (ExeFileName executable)
                           (FileName frame) (FunctionName frame);
          topN1 = (case map_of topNFunctions frameGroupID of
                     None \<Rightarrow> topNFunctions @
                       [(frameGroupID,
                         \<lparr>FrameD = createStackFrameMetadata d frameID fileID addressOrLine
                                     (arrayGet (Types stackTrace) i) (Inline frame)
                                     (FunctionName frame) (FunctionOffset frame)
                                     (LineNumber frame) (FileName frame)
                                     (ExeFileName executable),
                          FrameGroupIDD = frameGroupID,
                          CountExclusiveD = Finite 0,
                          CountInclusiveD = Finite 0\<rparr>)]
                   | Some _ \<Rightarrow> topNFunctions);
          topN2 = (if frameGroupID \<notin> uniqueFrameGroupsPerEvent
                   then modify frameGroupID
                          (\<lambda>e. e\<lparr>CountInclusiveD := jsAdd (CountInclusiveD e) scaledCount\<rparr>)
                          topN1
                   else topN1);
          unique2 = (if frameGroupID \<notin> uniqueFrameGroupsPerEvent
                     then insert frameGroupID uniqueFrameGroupsPerEvent
                     else uniqueFrameGroupsPerEvent);
          topN3 = (if int i = int lenStackTrace - 1
                   then modify frameGroupID
                          (\<lambda>e. e\<lparr>CountExclusiveD := jsAdd (CountExclusiveD e) scaledCount\<rparr>)
                          topN2
                   else topN2)
      in (topN3, unique2))"

text \<open>The body of the loop over the events (lines 82-143): \<open>scaledCount\<close> is the rounded
  product of line 84, \<open>totalCount\<close> the rounded sum of line 85.\<close>

definition eventStepD ::
  "('meta, 'imp) deps \<Rightarrow> (StackFrameID \<rightharpoonup> StackFrame) \<Rightarrow> (FileID \<rightharpoonup> Executable) \<Rightarrow>
   (StackTraceID \<rightharpoonup> StackTrace) \<Rightarrow> number \<Rightarrow> StackTraceID \<times> number \<Rightarrow>
   number \<times> (FrameGroupID \<times> 'meta TopNFunctionAndFrameGroupD) list \<Rightarrow>
   number \<times> (FrameGroupID \<times> 'meta TopNFunctionAndFrameGroupD) list" where
  "eventStepD d stackFrames' executables' stackTraces' scalingFactor ev st =
    (case ev of (stackTraceID, count') \<Rightarrow>
     case st of (totalCount, topNFunctions) \<Rightarrow>
      let scaledCount = jsMul count' scalingFactor;
          totalCount' = jsAdd totalCount scaledCount;
          stackTrace = (case stackTraces' stackTraceID of
                          None \<Rightarrow> emptyStackTrace d | Some t \<Rightarrow> t);
          lenStackTrace = length (FrameIDs stackTrace)
      in (totalCount',
          fst (fold (frameStepD d stackFrames' executables' stackTrace lenStackTrace scaledCount)
                 [0..<lenStackTrace] (topNFunctions, {}))))"

text \<open>Lines 76-143: \<open>scalingFactor\<close> is the rounded quotient \<open>1.0 / samplingRate\<close> of
  line 79.\<close>

definition accumulateD ::
  "('meta, 'imp) deps \<Rightarrow> paramsD \<Rightarrow>
   number \<times> (FrameGroupID \<times> 'meta TopNFunctionAndFrameGroupD) list" where
  "accumulateD d p =
    (let scalingFactor = jsDiv (Finite 1) (samplingRateD p)
     in fold (eventStepD d (stackFramesD p) (executablesD p) (stackTracesD p) scalingFactor)
          (eventsD p) (Finite 0, []))"

text \<open>The comparison function of lines 149-157, and lines 147-158.\<close>

definition compareTopND ::
  "(string \<Rightarrow> string \<Rightarrow> int) \<Rightarrow> 'meta TopNFunctionAndFrameGroupD \<Rightarrow>
   'meta TopNFunctionAndFrameGroupD \<Rightarrow> int" where
  "compareTopND lc a b =
    (if jsGt (CountExclusiveD a) (CountExclusiveD b) then 1
     else if jsLt (CountExclusiveD a) (CountExclusiveD b) then - 1
     else lc (FrameGroupIDD a) (FrameGroupIDD b))"

definition rankTopND ::
  "(string \<Rightarrow> string \<Rightarrow> int) \<Rightarrow> (FrameGroupID \<times> 'meta TopNFunctionAndFrameGroupD) list \<Rightarrow>
   'meta TopNFunctionAndFrameGroupD list" where
  "rankTopND lc topNFunctions = rev (sortBy (compareTopND lc) (map snd topNFunctions))"

text \<open>Lines 167-192: the callback of \<open>map\<close>.\<close>

definition makeRowD ::
  "(number \<Rightarrow> number \<Rightarrow> number \<Rightarrow> number \<Rightarrow> 'imp) \<Rightarrow> number \<Rightarrow> number \<Rightarrow>
   nat \<times> 'meta TopNFunctionAndFrameGroupD \<Rightarrow> ('meta, 'imp) TopNFunctionD" where
  "makeRowD calculateImpactEstimates' totalCount totalSeconds' ix =
    (case ix of (i, frameAndCount) \<Rightarrow>
      let countExclusive = CountExclusiveD frameAndCount;
          countInclusive = CountInclusiveD frameAndCount;
          totalCPUPerc' = jsMul (jsDiv countInclusive totalCount) (Finite 100);
          selfCPUPerc' = jsMul (jsDiv countExclusive totalCount) (Finite 100);
          impactEstimates' =
            (if jsGt totalSeconds' (Finite 0)
             then Some (calculateImpactEstimates' countExclusive countInclusive totalCount
                          totalSeconds')
             else None)
      in \<lparr>RankD = i + 1,
          RowFrameD = FrameD frameAndCount,
          RowCountExclusiveD = countExclusive,
          RowSelfCPUPercD = selfCPUPerc',
          RowCountInclusiveD = countInclusive,
          RowTotalCPUPercD = totalCPUPerc',
          RowIdD = FrameGroupIDD frameAndCount,
          RowImpactEstimatesD = impactEstimates'\<rparr>)"

text \<open>\<open>sumBy\<close> of lodash: \<open>0\<close> for the empty array, else the first value plus the others
  from left to right.\<close>

definition sumByD :: "('a \<Rightarrow> number) \<Rightarrow> 'a list \<Rightarrow> number" where
  "sumByD f xs = (case map f xs of [] \<Rightarrow> Finite 0 | x # rest \<Rightarrow> foldl jsAdd x rest)"

text \<open>The whole function (lines 52-217).\<close>

definition createTopNFunctionsD ::
  "('meta, 'imp0) deps \<Rightarrow> (number \<Rightarrow> number \<Rightarrow> number \<Rightarrow> number \<Rightarrow> 'imp) \<Rightarrow> paramsD \<Rightarrow>
   ('meta, 'imp) TopNFunctionsD" where
  "createTopNFunctionsD d calculateImpactEstimates' p =
    (case accumulateD d p of (totalCount, topNFunctions) \<Rightarrow>
      let topN = rankTopND (localeCompare d) topNFunctions;
          startIndex' = clampIndex (startIndexD p) (length topN);
          endIndex' = clampIndex (endIndexD p) (length topN);
          framesAndCountsAndIds =
            map (makeRowD calculateImpactEstimates' totalCount (totalSecondsD p))
              (enumerate 0 (slice topN startIndex' endIndex'));
          sumSelfCPU = sumByD RowCountExclusiveD framesAndCountsAndIds;
          selfCPUPerc' = jsMul (jsDiv sumSelfCPU totalCount) (Finite 100);
          sumTotalCPU = sumByD RowCountInclusiveD framesAndCountsAndIds;
          totalCPUPerc' = jsMul (jsDiv sumTotalCPU totalCount) (Finite 100);
          impactEstimates' =
            (if jsGt (totalSecondsD p) (Finite 0)
             then Some (calculateImpactEstimates' sumSelfCPU sumTotalCPU totalCount
                          (totalSecondsD p))
             else None)
      in \<lparr>TotalCountD = totalCount,
          TopND = framesAndCountsAndIds,
          SamplingRateD = samplingRateD p,
          impactEstimatesD = impactEstimates',
          selfCPUPercD = selfCPUPerc',
          totalCPUPercD = totalCPUPerc'\<rparr>)"

subsection \<open>Notions used to state the properties\<close>

text \<open>The frame groups, by position, of the stack trace an event resolves to.\<close>

definition groupsOfD :: "('meta, 'imp) deps \<Rightarrow> paramsD \<Rightarrow> StackTraceID \<Rightarrow> FrameGroupID list" where
  "groupsOfD d p stackTraceID =
    frameGroups d (stackFramesD p) (executablesD p)
      (case stackTracesD p stackTraceID of None \<Rightarrow> emptyStackTrace d | Some t \<Rightarrow> t)"

text \<open>The scaled count of an event (lines 79 and 84), and what one event does to
  \<open>totalCount\<close>, to the inclusive count and to the exclusive count of the frame group \<open>g\<close>.\<close>

definition scaledD :: "paramsD \<Rightarrow> number \<Rightarrow> number" where
  "scaledD p c = jsMul c (jsDiv (Finite 1) (samplingRateD p))"

definition addTotal :: "paramsD \<Rightarrow> StackTraceID \<times> number \<Rightarrow> number \<Rightarrow> number" where
  "addTotal p ev a = jsAdd a (scaledD p (snd ev))"

definition addInclusive ::
  "('meta, 'imp) deps \<Rightarrow> paramsD \<Rightarrow> FrameGroupID \<Rightarrow> StackTraceID \<times> number \<Rightarrow> number \<Rightarrow> number" where
  "addInclusive d p g ev a =
    (if g \<in> set (groupsOfD d p (fst ev)) then jsAdd a (scaledD p (snd ev)) else a)"

definition addExclusive ::
  "('meta, 'imp) deps \<Rightarrow> paramsD \<Rightarrow> FrameGroupID \<Rightarrow> StackTraceID \<times> number \<Rightarrow> number \<Rightarrow> number" where
  "addExclusive d p g ev a =
    (if groupsOfD d p (fst ev) \<noteq> [] \<and> last (groupsOfD d p (fst ev)) = g
     then jsAdd a (scaledD p (snd ev)) else a)"

text \<open>The counts stored in the map for a frame group, zero when it has no entry.\<close>

definition inclusiveOfD ::
  "(FrameGroupID \<times> 'meta TopNFunctionAndFrameGroupD) list \<Rightarrow> FrameGroupID \<Rightarrow> number" where
  "inclusiveOfD m g = (case map_of m g of None \<Rightarrow> Finite 0 | Some e \<Rightarrow> CountInclusiveD e)"

definition exclusiveOfD ::
  "(FrameGroupID \<times> 'meta TopNFunctionAndFrameGroupD) list \<Rightarrow> FrameGroupID \<Rightarrow> number" where
  "exclusiveOfD m g = (case map_of m g of None \<Rightarrow> Finite 0 | Some e \<Rightarrow> CountExclusiveD e)"

text \<open>The entry created at position \<open>i\<close> of a stack trace (lines 110-128).\<close>

definition newEntryD ::
  "('meta, 'imp) deps \<Rightarrow> (StackFrameID \<rightharpoonup> StackFrame) \<Rightarrow> (FileID \<rightharpoonup> Executable) \<Rightarrow>
   StackTrace \<Rightarrow> nat \<Rightarrow> 'meta TopNFunctionAndFrameGroupD" where
  "newEntryD d stackFrames' executables' stackTrace i =
    (let frameID = FrameIDs stackTrace ! i;
         fileID = arrayGet (FileIDs stackTrace) i;
         addressOrLine = arrayGet (AddressOrLines stackTrace) i;
         frame = (case stackFrames' frameID of None \<Rightarrow> emptyStackFrame d | Some f \<Rightarrow> f);
         executable = (case Option.bind fileID executables' of
                         None \<Rightarrow> emptyExecutable d | Some e \<Rightarrow> e)
     in \<lparr>FrameD = createStackFrameMetadata d frameID fileID addressOrLine
                  (arrayGet (Types stackTrace) i) (Inline frame) (FunctionName frame)
                  (FunctionOffset frame) (LineNumber frame) (FileName frame)
                  (ExeFileName executable),
         FrameGroupIDD = frameGroupAt d stackFrames' executables' stackTrace i,
         CountExclusiveD = Finite 0,
         CountInclusiveD = Finite 0\<rparr>)"

text \<open>
  The single comparison function the ranking is compared with, on double counts: descending
  by exclusive count, ties broken by descending order of the FrameGroupID string. It follows
  the words of the specification, not the source.
\<close>

definition compareDescendingD ::
  "(string \<Rightarrow> string \<Rightarrow> int) \<Rightarrow> 'meta TopNFunctionAndFrameGroupD \<Rightarrow>
   'meta TopNFunctionAndFrameGroupD \<Rightarrow> int" where
  "compareDescendingD lc a b =
    (if jsGt (CountExclusiveD a) (CountExclusiveD b) then - 1
     else if jsLt (CountExclusiveD a) (CountExclusiveD b) then 1
     else lc (FrameGroupIDD b) (FrameGroupIDD a))"

definition rankDescendingD ::
  "(string \<Rightarrow> string \<Rightarrow> int) \<Rightarrow> (FrameGroupID \<times> 'meta TopNFunctionAndFrameGroupD) list \<Rightarrow>
   'meta TopNFunctionAndFrameGroupD list" where
  "rankDescendingD lc topNFunctions = sortBy (compareDescendingD lc) (map snd topNFunctions)"

text \<open>
  A number a count can hold when no count is negative and none is \<open>NaN\<close>: \<open>Infinity\<close>, or
  a double that is not negative.
\<close>

definition stored :: "number \<Rightarrow> bool" where
  "stored n \<longleftrightarrow> n = PosInf \<or> (\<exists>x. 0 \<le> x \<and> n = Finite x \<and> roundDouble x = Finite x)"

subsection \<open>A concrete input\<close>

text \<open>The stack traces and frames of the concrete input of the first section, the single
  event \<open>(T1, 3)\<close> and the sampling rate \<open>0.5\<close>.\<close>

definition exampleCalcD :: "number \<Rightarrow> number \<Rightarrow> number \<Rightarrow> number \<Rightarrow> number" where
  "exampleCalcD countExclusive countInclusive totalSamples seconds = jsDiv countExclusive seconds"

definition exampleParamsD :: paramsD where
  "exampleParamsD =
    \<lparr>endIndexD = 10,
     eventsD = [(''T1'', Finite 3)],
     executablesD = Map.empty,
     samplingRateD = Finite (1 / 2),
     stackFramesD = stackFrames exampleParams,
     stackTracesD = stackTraces exampleParams,
     startIndexD = 0,
     totalSecondsD = Finite 0\<rparr>"

section \<open>Field-listing route (POST /api/watcher/fields)\<close>

text \<open>JSON values. The search client resolves with the body of the response, a JSON
  object: the list of its properties.\<close>

datatype json =
  JNull
  | JBool bool
  | JNumber int
  | JString string
  | JArray "json list"
  | JObject "(string \<times> json) list"

type_synonym jsonObject = "(string \<times> json) list"

text \<open>The parameters of the field-capabilities call built by \<open>fetchFields\<close>.\<close>

record fieldCapsParams =
  index :: "string list"
  fields' :: "string list"
  ignoreUnavailable :: bool
  allowNoIndices :: bool
  ignore :: int

text \<open>
  What the handler is given: \<open>isEsError\<close> from \<open>lib\<close>, the properties \<open>statusCode\<close> and
  \<open>message\<close> of a thrown error, the model \<open>Fields\<close> of \<open>../../models/fields\<close> with its
  constructor \<open>fromUpstreamJson\<close> and its getter \<open>downstreamJson\<close>, and the client method
  \<open>callAsCurrentUser\<close>, which either throws (\<open>Inl\<close>) or resolves (\<open>Inr\<close>). The
  constructor and the getter of the model are functions that return: an error raised inside
  the model is not part of this embedding.
\<close>

record ('e, 'f, 'b) routeDeps =
  isEsError :: "'e \<Rightarrow> bool"
  statusCode :: "'e \<Rightarrow> int"
  message :: "'e \<Rightarrow> string"
  fromUpstreamJson :: "jsonObject \<Rightarrow> 'f"
  downstreamJson :: "'f \<Rightarrow> 'b"
  callAsCurrentUser :: "string \<Rightarrow> fieldCapsParams \<Rightarrow> 'e + jsonObject"

text \<open>The body of a response is the rendering of the fields or the object
  \<open>{ message }\<close>.\<close>

datatype 'b responseBody = FieldsBody 'b | MessageBody string

record 'b httpResponse =
  status :: int
  body :: "'b responseBody"

text \<open>The response factory of the router: \<open>response.ok\<close> answers 200,
  \<open>response.customError\<close> answers the status code it is given.\<close>

definition response_ok :: "'b responseBody \<Rightarrow> 'b httpResponse" where
  "response_ok b = \<lparr>status = 200, body = b\<rparr>"

definition response_customError :: "int \<Rightarrow> 'b responseBody \<Rightarrow> 'b httpResponse" where
  "response_customError code b = \<lparr>status = code, body = b\<rparr>"

text \<open>A handler returns a response or lets an error escape.\<close>

datatype ('e, 'b) outcome = Responds "'b httpResponse" | Throws 'e

definition fetchFields ::
  "('e, 'f, 'b) routeDeps \<Rightarrow> string list \<Rightarrow> 'e + jsonObject" where
  "fetchFields d indexes =
    (let params = \<lparr>index = indexes, fields' = [''*''], ignoreUnavailable = True,
                    allowNoIndices = True, ignore = 404\<rparr>
     in callAsCurrentUser d ''fieldCaps'' params)"

text \<open>The handler given to \<open>license.guardApiRoute\<close> (lines 61-83), applied to the
  \<open>indexes\<close> of the request body.\<close>

definition listFieldsHandler ::
  "('e, 'f, 'b) routeDeps \<Rightarrow> string list \<Rightarrow> ('e, 'b) outcome" where
  "listFieldsHandler d indexes =
    (case fetchFields d indexes of
       Inr fieldsResponse \<Rightarrow>
         let json = (if map_of fieldsResponse ''status'' = Some (JNumber 404)
                     then [(''fields'', JArray [])] else fieldsResponse);
             fields' = fromUpstreamJson d json
         in Responds (response_ok (FieldsBody (downstreamJson d fields')))
     | Inl e \<Rightarrow>
         if isEsError d e
         then Responds (response_customError (statusCode d e) (MessageBody (message d e)))
         else Throws e)"

text \<open>A concrete client: the index \<open>missing\<close> resolves with status 404, the index \<open>down\<close>
  throws a recognised error 503, the index \<open>broken\<close> throws an unrecognised error, any other
  request resolves with one field. An error is the triple of its recognition, status code and
  message; the model \<open>Fields\<close> keeps the JSON it is given.\<close>

definition exampleRouteDeps :: "(bool \<times> int \<times> string, jsonObject, jsonObject) routeDeps" where
  "exampleRouteDeps =
    \<lparr>isEsError = fst,
     statusCode = (\<lambda>e. fst (snd e)),
     message = (\<lambda>e. snd (snd e)),
     fromUpstreamJson = (\<lambda>j. j),
     downstreamJson = (\<lambda>f. f),
     callAsCurrentUser = (\<lambda>endpoint params.
       if index params = [''missing''] then Inr [(''status'', JNumber 404)]
       else if index params = [''down''] then Inl (True, 503, ''cluster unavailable'')
       else if index params = [''broken''] then Inl (False, 0, ''boom'')
       else Inr [(''fields'', JArray [JString ''host.name''])])\<rparr>"

section \<open>Workpad routes\<close>

text \<open>The current workpad of the state: its id and its zero-based page index.\<close>

record workpad =
  workpadId :: string
  page :: int

text \<open>The actions \<open>setAssets(assets)\<close>, \<open>setWorkpad(workpad)\<close> and \<open>gotoPage(pageIndex)\<close>.\<close>

datatype 'a action = SetAssets 'a | SetWorkpad workpad | GotoPage int

text \<open>What a route action does, in order: it dispatches actions and redirects. The
  parameters of a redirect to \<open>loadWorkpad\<close> are the id and the page.\<close>

datatype 'a effect = Dispatch "'a action" | RedirectTo string "(string \<times> int) option"

text \<open>
  What the action is given: the selector \<open>getWorkpad\<close>, the change \<open>dispatch\<close> makes to the
  state, and \<open>workpadService.get\<close>, whose result is the assets with the rest of the workpad,
  or \<open>None\<close> for null. A fetch that is rejected is not part of this embedding.
\<close>

record ('s, 'a) store =
  getWorkpad :: "'s \<Rightarrow> workpad"
  reduce :: "'a action \<Rightarrow> 's \<Rightarrow> 's"
  workpadService_get :: "string \<Rightarrow> ('a \<times> workpad) option"

text \<open>
  \<open>parseInt(string, 10)\<close>: leading white space is skipped, then an optional sign, then the
  longest run of decimal digits is read; without a digit the result is NaN, here \<open>None\<close>.
  An absent parameter (\<open>undefined\<close>) reads as the string "undefined" and has no digit.
  Characters are code units below 256.
\<close>

definition isWhiteSpace :: "char \<Rightarrow> bool" where
  "isWhiteSpace c \<longleftrightarrow> of_char c \<in> {9, 10, 11, 12, 13, 32, 160 :: nat}"

definition isDigit :: "char \<Rightarrow> bool" where
  "isDigit c \<longleftrightarrow> 48 \<le> (of_char c :: nat) \<and> (of_char c :: nat) \<le> 57"

definition digitsValue :: "string \<Rightarrow> int" where
  "digitsValue z = foldl (\<lambda>acc c. 10 * acc + (int (of_char c) - 48)) 0 z"

definition parseInt10 :: "string option \<Rightarrow> int option" where
  "parseInt10 arg =
    (case arg of
       None \<Rightarrow> None
     | Some s \<Rightarrow>
         let s1 = dropWhile isWhiteSpace s;
             sign = (case s1 of c # r \<Rightarrow> if c = CHR ''-'' then - 1 else 1 | [] \<Rightarrow> 1);
             s2 = (case s1 of c # r \<Rightarrow> if c = CHR ''-'' \<or> c = CHR ''+'' then r else s1
                   | [] \<Rightarrow> s1);
             z = takeWhile isDigit s2
         in if z = [] then None else Some (sign * digitsValue z))"

text \<open>The action of the route \<open>loadWorkpad\<close> (lines 30-57): the effects in order, and the
  state afterwards.\<close>

definition loadWorkpad ::
  "('s, 'a) store \<Rightarrow> 's \<Rightarrow> string \<Rightarrow> string option \<Rightarrow> 'a effect list \<times> 's" where
  "loadWorkpad st s paramsId paramsPage =
    (let currentWorkpad = getWorkpad st s;
         loaded =
           (if paramsId \<noteq> workpadId currentWorkpad
            then (case workpadService_get st paramsId of
                    None \<Rightarrow> Inl [RedirectTo ''home'' None]
                  | Some (assets, workpad') \<Rightarrow>
                      Inr ([Dispatch (SetAssets assets), Dispatch (SetWorkpad workpad')],
                           reduce st (SetWorkpad workpad') (reduce st (SetAssets assets) s)))
            else Inr ([], s))
     in case loaded of
          Inl effects \<Rightarrow> (effects, s)
        | Inr (effects, s1) \<Rightarrow>
            let workpad' = getWorkpad st s1;
                pageNumber = parseInt10 paramsPage
            in (case pageNumber of
                  None \<Rightarrow>
                    (effects @ [RedirectTo ''loadWorkpad''
                                  (Some (workpadId workpad', page workpad' + 1))], s1)
                | Some n \<Rightarrow>
                    let pageIndex = n - 1
                    in if pageIndex \<noteq> page workpad'
                       then (effects @ [Dispatch (GotoPage pageIndex)],
                             reduce st (GotoPage pageIndex) s1)
                       else (effects, s1)))"

text \<open>A concrete store: the state is the current workpad, \<open>setWorkpad\<close> replaces it,
  \<open>gotoPage\<close> sets its page, and no workpad is stored.\<close>

definition exampleStore :: "(workpad, unit) store" where
  "exampleStore =
    \<lparr>getWorkpad = (\<lambda>s. s),
     reduce = (\<lambda>a s. case a of SetAssets _ \<Rightarrow> s | SetWorkpad w \<Rightarrow> w
                               | GotoPage n \<Rightarrow> s\<lparr>page := n\<rparr>),
     workpadService_get = (\<lambda>i. None)\<rparr>"

section \<open>Properties of the aggregation\<close>

subsection \<open>The map of accumulator entries\<close>

lemma map_fst_modify: "map fst (modify k f m) = map fst m"
  by (induction m) (auto simp: modify_def)

lemma map_of_modify:
  "map_of (modify k f m) k' = (if k' = k then map_option f (map_of m k) else map_of m k')"
  by (induction m) (auto simp: modify_def)

lemma keys_modify: "fst ` set (modify k f m) = fst ` set m"
  using map_fst_modify [of k f m] by (metis set_map)

lemma inclusiveOf_modify_incl:
  "k \<in> fst ` set m \<Longrightarrow>
   inclusiveOf (modify k (\<lambda>e. e\<lparr>CountInclusive := CountInclusive e + c\<rparr>) m) h =
   inclusiveOf m h + (if h = k then c else 0)"
  by (auto simp: inclusiveOf_def map_of_modify map_of_eq_None_iff split: option.splits)

lemma inclusiveOf_modify_excl:
  "inclusiveOf (modify k (\<lambda>e. e\<lparr>CountExclusive := CountExclusive e + c\<rparr>) m) h = inclusiveOf m h"
  by (auto simp: inclusiveOf_def map_of_modify split: option.splits)

lemma exclusiveOf_modify_excl:
  "k \<in> fst ` set m \<Longrightarrow>
   exclusiveOf (modify k (\<lambda>e. e\<lparr>CountExclusive := CountExclusive e + c\<rparr>) m) h =
   exclusiveOf m h + (if h = k then c else 0)"
  by (auto simp: exclusiveOf_def map_of_modify map_of_eq_None_iff split: option.splits)

lemma exclusiveOf_modify_incl:
  "exclusiveOf (modify k (\<lambda>e. e\<lparr>CountInclusive := CountInclusive e + c\<rparr>) m) h = exclusiveOf m h"
  by (auto simp: exclusiveOf_def map_of_modify split: option.splits)

lemma keys_ensured: "fst ` set (ensured g e m) = insert g (fst ` set m)"
proof (cases "map_of m g")
  case None
  then show ?thesis by (simp add: ensured_def)
next
  case (Some v)
  then have "g \<in> fst ` set m"
    by (auto dest!: map_of_SomeD intro: rev_image_eqI)
  with Some show ?thesis by (simp add: ensured_def insert_absorb)
qed

lemma distinct_ensured: "distinct (map fst m) \<Longrightarrow> distinct (map fst (ensured g e m))"
  by (auto simp: ensured_def map_of_eq_None_iff split: option.splits)

lemma inclusiveOf_ensured:
  "CountInclusive e = 0 \<Longrightarrow> inclusiveOf (ensured g e m) h = inclusiveOf m h"
  by (auto simp: ensured_def inclusiveOf_def map_of_append split: option.splits if_splits)

lemma exclusiveOf_ensured:
  "CountExclusive e = 0 \<Longrightarrow> exclusiveOf (ensured g e m) h = exclusiveOf m h"
  by (auto simp: ensured_def exclusiveOf_def map_of_append split: option.splits if_splits)

subsection \<open>One frame position\<close>

lemma newEntry_counts [simp]:
  "CountInclusive (newEntry d sf ex st i) = 0" "CountExclusive (newEntry d sf ex st i) = 0"
  "FrameGroupID (newEntry d sf ex st i) = frameGroupAt d sf ex st i"
  by (simp_all add: newEntry_def Let_def)

lemma frameStep_unfold:
  "frameStep d sf ex st len sc i (m, seen) =
     (let g = frameGroupAt d sf ex st i;
          m1 = ensured g (newEntry d sf ex st i) m;
          m2 = (if g \<notin> seen then modify g (\<lambda>e. e\<lparr>CountInclusive := CountInclusive e + sc\<rparr>) m1 else m1);
          m3 = (if int i = int len - 1 then modify g (\<lambda>e. e\<lparr>CountExclusive := CountExclusive e + sc\<rparr>) m2 else m2)
      in (m3, insert g seen))"
  unfolding frameStep_def frameGroupAt_def ensured_def newEntry_def Let_def
  by (simp add: insert_absorb)

lemma frameStep_seen: "snd (frameStep d sf ex st len sc i (m, seen)) = insert (frameGroupAt d sf ex st i) seen"
  by (simp add: frameStep_unfold Let_def)

lemma frameStep_keys:
  "fst ` set (fst (frameStep d sf ex st len sc i (m, seen))) = insert (frameGroupAt d sf ex st i) (fst ` set m)"
proof -
  have "set (map fst (fst (frameStep d sf ex st len sc i (m, seen)))) 
      = set (map fst (ensured (frameGroupAt d sf ex st i) (newEntry d sf ex st i) m))"
    by (simp add: frameStep_unfold Let_def map_fst_modify del: set_map)
  then show ?thesis by (simp add: keys_ensured)
qed

lemma frameStep_distinct:
  "distinct (map fst m) \<Longrightarrow> distinct (map fst (fst (frameStep d sf ex st len sc i (m, seen))))"
  by (simp add: frameStep_unfold Let_def map_fst_modify distinct_ensured)

lemma frameStep_inclusive:
  "inclusiveOf (fst (frameStep d sf ex st len sc i (m, seen))) h =
   inclusiveOf m h + (if h = frameGroupAt d sf ex st i \<and> h \<notin> seen then sc else 0)"
  by (auto simp: frameStep_unfold Let_def inclusiveOf_modify_excl inclusiveOf_modify_incl
       keys_ensured inclusiveOf_ensured)

lemma frameStep_exclusive:
  "exclusiveOf (fst (frameStep d sf ex st len sc i (m, seen))) h =
   exclusiveOf m h + (if h = frameGroupAt d sf ex st i \<and> int i = int len - 1 then sc else 0)"
  by (auto simp: frameStep_unfold Let_def exclusiveOf_modify_excl exclusiveOf_modify_incl
       keys_ensured keys_modify exclusiveOf_ensured)

subsection \<open>The frame positions of one stack trace\<close>

lemma fold_frameStep_seen:
  "snd (fold (frameStep d sf ex st len sc) is (m, seen)) = seen \<union> frameGroupAt d sf ex st ` set is"
proof (induction "is" arbitrary: m seen)
  case Nil
  then show ?case by simp
next
  case (Cons i "is")
  obtain m' seen' where step: "frameStep d sf ex st len sc i (m, seen) = (m', seen')"
    by (cases "frameStep d sf ex st len sc i (m, seen)")
  from frameStep_seen [of d sf ex st len sc i m seen] step
  have "seen' = insert (frameGroupAt d sf ex st i) seen" by simp
  with Cons.IH [of m' seen'] step show ?case by auto
qed

lemma fold_frameStep_keys:
  "fst ` set (fst (fold (frameStep d sf ex st len sc) is (m, seen))) =
   fst ` set m \<union> frameGroupAt d sf ex st ` set is"
proof (induction "is" arbitrary: m seen)
  case Nil
  then show ?case by simp
next
  case (Cons i "is")
  obtain m' seen' where step: "frameStep d sf ex st len sc i (m, seen) = (m', seen')"
    by (cases "frameStep d sf ex st len sc i (m, seen)")
  from frameStep_keys [of d sf ex st len sc i m seen] step
  have "fst ` set m' = insert (frameGroupAt d sf ex st i) (fst ` set m)" by simp
  with Cons.IH [of m' seen'] step show ?case by auto
qed

lemma fold_frameStep_distinct:
  "distinct (map fst m) \<Longrightarrow>
   distinct (map fst (fst (fold (frameStep d sf ex st len sc) is (m, seen))))"
proof (induction "is" arbitrary: m seen)
  case Nil
  then show ?case by simp
next
  case (Cons i "is")
  obtain m' seen' where step: "frameStep d sf ex st len sc i (m, seen) = (m', seen')"
    by (cases "frameStep d sf ex st len sc i (m, seen)")
  from frameStep_distinct [OF Cons.prems, of d sf ex st len sc i seen] step
  have "distinct (map fst m')" by simp
  with Cons.IH [of m' seen'] step show ?case by simp
qed

lemma fold_frameStep_inclusive:
  "inclusiveOf (fst (fold (frameStep d sf ex st len sc) is (m, seen))) h =
   inclusiveOf m h + (if h \<in> frameGroupAt d sf ex st ` set is \<and> h \<notin> seen then sc else 0)"
proof (induction "is" arbitrary: m seen)
  case Nil
  then show ?case by simp
next
  case (Cons i "is")
  obtain m' seen' where step: "frameStep d sf ex st len sc i (m, seen) = (m', seen')"
    by (cases "frameStep d sf ex st len sc i (m, seen)")
  from frameStep_seen [of d sf ex st len sc i m seen] step
  have seen': "seen' = insert (frameGroupAt d sf ex st i) seen" by simp
  from frameStep_inclusive [of d sf ex st len sc i m seen h] step
  have m': "inclusiveOf m' h =
    inclusiveOf m h + (if h = frameGroupAt d sf ex st i \<and> h \<notin> seen then sc else 0)" by simp
  show ?case
    using Cons.IH [of m' seen'] step seen' m' by auto
qed

lemma fold_frameStep_exclusive:
  "exclusiveOf (fst (fold (frameStep d sf ex st len sc) is (m, seen))) h =
   exclusiveOf m h +
   (\<Sum>i\<leftarrow>is. if h = frameGroupAt d sf ex st i \<and> int i = int len - 1 then sc else 0)"
proof (induction "is" arbitrary: m seen)
  case Nil
  then show ?case by simp
next
  case (Cons i "is")
  obtain m' seen' where step: "frameStep d sf ex st len sc i (m, seen) = (m', seen')"
    by (cases "frameStep d sf ex st len sc i (m, seen)")
  from frameStep_exclusive [of d sf ex st len sc i m seen h] step
  have m': "exclusiveOf m' h =
    exclusiveOf m h + (if h = frameGroupAt d sf ex st i \<and> int i = int len - 1 then sc else 0)" by simp
  show ?case
    using Cons.IH [of m' seen'] step m' by simp
qed

lemma leaf_sum:
  "(\<Sum>i\<leftarrow>[0..<len]. if h = G i \<and> int i = int len - 1 then sc else (0::rat)) =
   (if 0 < len \<and> h = G (len - 1) then sc else 0)"
proof (cases len)
  case 0
  then show ?thesis by simp
next
  case (Suc n)
  have "(\<Sum>i\<leftarrow>[0..<n]. if h = G i \<and> int i = int (Suc n) - 1 then sc else (0::rat)) =
        (\<Sum>i\<leftarrow>[0..<n]. 0)"
    by (rule arg_cong [where f = sum_list], rule map_cong) auto
  then have "(\<Sum>i\<leftarrow>[0..<n]. if h = G i \<and> int i = int (Suc n) - 1 then sc else (0::rat)) = 0"
    by (simp only: sum_list_0)
  with Suc show ?thesis by simp
qed

subsection \<open>One event\<close>

lemma last_frameGroups:
  "0 < length (FrameIDs st) \<Longrightarrow>
   last (frameGroups d sf ex st) = frameGroupAt d sf ex st (length (FrameIDs st) - 1)"
  by (simp add: frameGroups_def last_map last_upt)

lemma frameGroups_Nil: "frameGroups d sf ex st = [] \<longleftrightarrow> length (FrameIDs st) = 0"
  by (simp add: frameGroups_def)

lemma eventStep_total:
  "fst (eventStep d (stackFrames p) (executables p) (stackTraces p) (1 / samplingRate p) ev (t, m)) =
   t + scaled p (snd ev)"
  by (cases ev) (simp add: eventStep_def scaled_def Let_def)

lemma eventStep_keys:
  "fst ` set (snd (eventStep d (stackFrames p) (executables p) (stackTraces p) (1 / samplingRate p) ev (t, m))) =
   fst ` set m \<union> set (groupsOf d p (fst ev))"
  by (cases ev)
     (simp add: eventStep_def Let_def fold_frameStep_keys groupsOf_def frameGroups_def traceOf_def)

lemma eventStep_distinct:
  "distinct (map fst m) \<Longrightarrow>
   distinct (map fst (snd (eventStep d sf ex sts f ev (t, m))))"
  by (cases ev) (simp add: eventStep_def Let_def fold_frameStep_distinct)

lemma eventStep_inclusive:
  "inclusiveOf (snd (eventStep d (stackFrames p) (executables p) (stackTraces p) (1 / samplingRate p) ev (t, m))) h =
   inclusiveOf m h + inclusiveShare d p h ev"
  by (cases ev)
     (simp add: eventStep_def Let_def fold_frameStep_inclusive inclusiveShare_def groupsOf_def
        frameGroups_def traceOf_def scaled_def)

lemma eventStep_exclusive:
  "exclusiveOf (snd (eventStep d (stackFrames p) (executables p) (stackTraces p) (1 / samplingRate p) ev (t, m))) h =
   exclusiveOf m h + exclusiveShare d p h ev"
  by (cases ev)
     (auto simp: eventStep_def Let_def fold_frameStep_exclusive leaf_sum exclusiveShare_def
        groupsOf_def frameGroups_Nil last_frameGroups traceOf_def scaled_def)

subsection \<open>All events\<close>

lemma fold_eventStep_total:
  "fst (fold (eventStep d (stackFrames p) (executables p) (stackTraces p) (1 / samplingRate p)) evs (t, m)) = t + (\<Sum>ev\<leftarrow>evs. scaled p (snd ev))"
proof (induction evs arbitrary: t m)
  case Nil
  then show ?case by simp
next
  case (Cons ev evs)
  obtain t' m' where st:
    "eventStep d (stackFrames p) (executables p) (stackTraces p) (1 / samplingRate p) ev (t, m) = (t', m')"
    by (cases "eventStep d (stackFrames p) (executables p) (stackTraces p) (1 / samplingRate p) ev (t, m)")
  have r: "t' = t + scaled p (snd ev)"
    using eventStep_total [of d p ev t m] st by simp
  show ?case
    using Cons.IH [of t' m'] st r by simp
qed

lemma fold_eventStep_keys:
  "fst ` set (snd (fold (eventStep d (stackFrames p) (executables p) (stackTraces p) (1 / samplingRate p)) evs (t, m))) = fst ` set m \<union> (\<Union>ev\<in>set evs. set (groupsOf d p (fst ev)))"
proof (induction evs arbitrary: t m)
  case Nil
  then show ?case by simp
next
  case (Cons ev evs)
  obtain t' m' where st:
    "eventStep d (stackFrames p) (executables p) (stackTraces p) (1 / samplingRate p) ev (t, m) = (t', m')"
    by (cases "eventStep d (stackFrames p) (executables p) (stackTraces p) (1 / samplingRate p) ev (t, m)")
  have r: "fst ` set m' = fst ` set m \<union> set (groupsOf d p (fst ev))"
    using eventStep_keys [of d p ev t m] st by simp
  show ?case
    using Cons.IH [of t' m'] st r by auto
qed

lemma fold_eventStep_inclusive:
  "inclusiveOf (snd (fold (eventStep d (stackFrames p) (executables p) (stackTraces p) (1 / samplingRate p)) evs (t, m))) h = inclusiveOf m h + (\<Sum>ev\<leftarrow>evs. inclusiveShare d p h ev)"
proof (induction evs arbitrary: t m)
  case Nil
  then show ?case by simp
next
  case (Cons ev evs)
  obtain t' m' where st:
    "eventStep d (stackFrames p) (executables p) (stackTraces p) (1 / samplingRate p) ev (t, m) = (t', m')"
    by (cases "eventStep d (stackFrames p) (executables p) (stackTraces p) (1 / samplingRate p) ev (t, m)")
  have r: "inclusiveOf m' h = inclusiveOf m h + inclusiveShare d p h ev"
    using eventStep_inclusive [of d p ev t m h] st by simp
  show ?case
    using Cons.IH [of t' m'] st r by simp
qed

lemma fold_eventStep_exclusive:
  "exclusiveOf (snd (fold (eventStep d (stackFrames p) (executables p) (stackTraces p) (1 / samplingRate p)) evs (t, m))) h = exclusiveOf m h + (\<Sum>ev\<leftarrow>evs. exclusiveShare d p h ev)"
proof (induction evs arbitrary: t m)
  case Nil
  then show ?case by simp
next
  case (Cons ev evs)
  obtain t' m' where st:
    "eventStep d (stackFrames p) (executables p) (stackTraces p) (1 / samplingRate p) ev (t, m) = (t', m')"
    by (cases "eventStep d (stackFrames p) (executables p) (stackTraces p) (1 / samplingRate p) ev (t, m)")
  have r: "exclusiveOf m' h = exclusiveOf m h + exclusiveShare d p h ev"
    using eventStep_exclusive [of d p ev t m h] st by simp
  show ?case
    using Cons.IH [of t' m'] st r by simp
qed

lemma fold_eventStep_distinct:
  "distinct (map fst m) \<Longrightarrow> distinct (map fst (snd (fold (eventStep d sf ex sts f) evs (t, m))))"
proof (induction evs arbitrary: t m)
  case Nil
  then show ?case by simp
next
  case (Cons ev evs)
  obtain t' m' where st: "eventStep d sf ex sts f ev (t, m) = (t', m')"
    by (cases "eventStep d sf ex sts f ev (t, m)")
  have "distinct (map fst m')"
    using eventStep_distinct [OF Cons.prems, of d sf ex sts f ev t] st by simp
  then show ?case
    using Cons.IH [of m' t'] st by simp
qed

lemma accumulate_total: "fst (accumulate d p) = (\<Sum>ev\<leftarrow>events p. scaled p (snd ev))"
  using fold_eventStep_total [of d p "events p" 0 "[]"] by (simp add: accumulate_def)

lemma accumulate_keys:
  "fst ` set (snd (accumulate d p)) = (\<Union>ev\<in>set (events p). set (groupsOf d p (fst ev)))"
  using fold_eventStep_keys [of d p "events p" 0 "[]"] by (simp add: accumulate_def)

lemma accumulate_distinct: "distinct (map fst (snd (accumulate d p)))"
  using fold_eventStep_distinct [of "[]" d "stackFrames p" "executables p" "stackTraces p" "1 / samplingRate p" "events p" 0] by (simp add: accumulate_def)

lemma accumulate_inclusive:
  "inclusiveOf (snd (accumulate d p)) h = (\<Sum>ev\<leftarrow>events p. inclusiveShare d p h ev)"
  using fold_eventStep_inclusive [of d p "events p" 0 "[]" h] by (simp add: accumulate_def inclusiveOf_def)

lemma accumulate_exclusive:
  "exclusiveOf (snd (accumulate d p)) h = (\<Sum>ev\<leftarrow>events p. exclusiveShare d p h ev)"
  using fold_eventStep_exclusive [of d p "events p" 0 "[]" h] by (simp add: accumulate_def exclusiveOf_def)

subsection \<open>Sorting with a comparison function\<close>

lemma mset_insertBy: "mset (insertBy cmp x xs) = add_mset x (mset xs)"
  by (induction xs) auto

lemma mset_sortBy: "mset (sortBy cmp xs) = mset xs"
  by (induction xs) (auto simp: mset_insertBy)

lemma set_insertBy: "set (insertBy cmp x xs) = insert x (set xs)"
  using mset_insertBy [of cmp x xs] by (metis set_mset_add_mset_insert set_mset_mset)

lemma set_sortBy: "set (sortBy cmp xs) = set xs"
  using mset_sortBy [of cmp xs] by (metis set_mset_mset)

lemma length_sortBy: "length (sortBy cmp xs) = length xs"
  using mset_sortBy [of cmp xs] by (metis size_mset)

lemma sorted_insertBy:
  assumes tr: "\<And>a b c. cmp a b \<le> 0 \<Longrightarrow> cmp b c \<le> 0 \<Longrightarrow> cmp a c \<le> (0::int)"
    and tot: "\<And>a b. 0 < cmp a b \<Longrightarrow> cmp b a \<le> 0"
  shows "sorted_wrt (\<lambda>a b. cmp a b \<le> 0) xs \<Longrightarrow>
         sorted_wrt (\<lambda>a b. cmp a b \<le> 0) (insertBy cmp x xs)"
proof (induction xs)
  case Nil
  then show ?case by simp
next
  case (Cons y ys)
  show ?case
  proof (cases "cmp x y \<le> 0")
    case True
    with Cons.prems have "\<forall>z\<in>set ys. cmp x z \<le> 0"
      by (auto intro: tr)
    with True Cons.prems show ?thesis by simp
  next
    case False
    then have "cmp y x \<le> 0" by (simp add: tot)
    with False Cons show ?thesis by (auto simp: set_insertBy)
  qed
qed

lemma sorted_sortBy:
  assumes tr: "\<And>a b c. cmp a b \<le> 0 \<Longrightarrow> cmp b c \<le> 0 \<Longrightarrow> cmp a c \<le> (0::int)"
    and tot: "\<And>a b. 0 < cmp a b \<Longrightarrow> cmp b a \<le> 0"
  shows "sorted_wrt (\<lambda>a b. cmp a b \<le> 0) (sortBy cmp xs)"
  by (induction xs) (simp_all add: sorted_insertBy [of cmp, OF tr tot])

lemma sorted_wrt_unique:
  assumes anti: "\<And>a b. a \<in> set xs \<Longrightarrow> b \<in> set xs \<Longrightarrow> R a b \<Longrightarrow> R b a \<Longrightarrow> a = b"
  shows "sorted_wrt R xs \<Longrightarrow> sorted_wrt R ys \<Longrightarrow> mset xs = mset ys \<Longrightarrow> xs = ys"
  using anti
proof (induction xs arbitrary: ys)
  case Nil
  then show ?case by simp
next
  case (Cons x xs)
  from Cons.prems(3) obtain y ys' where ys: "ys = y # ys'"
    by (cases ys) auto
  have sets: "set (x # xs) = set (y # ys')"
    using Cons.prems(3) ys by (metis set_mset_mset)
  have xy: "x = y"
  proof (rule ccontr)
    assume neq: "x \<noteq> y"
    with sets have "y \<in> set xs" and "x \<in> set ys'" by auto
    with Cons.prems(1,2) ys have "R x y" and "R y x" by auto
    moreover have "x \<in> set (x # xs)" and "y \<in> set (x # xs)"
      using \<open>y \<in> set xs\<close> by auto
    ultimately have "x = y" by (rule Cons.prems(4) [rotated 2])
    with neq show False by simp
  qed
  have "xs = ys'"
  proof (rule Cons.IH)
    show "sorted_wrt R xs" using Cons.prems(1) by simp
    show "sorted_wrt R ys'" using Cons.prems(2) ys by simp
    show "mset xs = mset ys'" using Cons.prems(3) ys xy by simp
    show "\<And>a b. a \<in> set xs \<Longrightarrow> b \<in> set xs \<Longrightarrow> R a b \<Longrightarrow> R b a \<Longrightarrow> a = b"
      using Cons.prems(4) by simp
  qed
  with xy ys show ?case by simp
qed

subsection \<open>The comparison function of the ranking\<close>

lemma compareTopN_le:
  "compareTopN lc a b \<le> 0 \<longleftrightarrow>
   CountExclusive a < CountExclusive b \<or>
   (CountExclusive a = CountExclusive b \<and> lc (FrameGroupID a) (FrameGroupID b) \<le> 0)"
  by (auto simp: compareTopN_def)

lemma compareDescending_le:
  "compareDescending lc a b \<le> 0 \<longleftrightarrow> compareTopN lc b a \<le> 0"
  by (auto simp: compareTopN_def compareDescending_def)

lemma consistentCompareD:
  assumes "consistentCompare lc"
  shows "lc a b < 0 \<longleftrightarrow> 0 < lc b a"
    and "lc a b \<le> 0 \<Longrightarrow> lc b c \<le> 0 \<Longrightarrow> lc a c \<le> 0"
proof -
  from assms have 1: "\<forall>a b. lc a b < 0 \<longleftrightarrow> 0 < lc b a"
    and 2: "\<forall>a b c. lc a b \<le> 0 \<and> lc b c \<le> 0 \<longrightarrow> lc a c \<le> 0"
    unfolding consistentCompare_def by blast+
  from 1 show "lc a b < 0 \<longleftrightarrow> 0 < lc b a" by (rule allE) (erule allE)
  show "lc a b \<le> 0 \<Longrightarrow> lc b c \<le> 0 \<Longrightarrow> lc a c \<le> 0"
    using 2 by blast
qed

lemma consistentCompare_zero_sym:
  assumes "consistentCompare lc"
  shows "lc a b = 0 \<longleftrightarrow> lc b a = 0"
  using consistentCompareD(1) [OF assms, of a b] consistentCompareD(1) [OF assms, of b a]
  by linarith

lemma consistentCompare_refl:
  assumes "consistentCompare lc"
  shows "lc a a = 0"
  using consistentCompareD(1) [OF assms, of a a] by linarith

lemma compareTopN_trans:
  assumes "consistentCompare lc" "compareTopN lc a b \<le> 0" "compareTopN lc b c \<le> 0"
  shows "compareTopN lc a c \<le> 0"
  using assms(2,3)
    consistentCompareD(2) [OF assms(1), of "FrameGroupID a" "FrameGroupID b" "FrameGroupID c"]
  by (auto simp: compareTopN_le)

lemma compareTopN_total:
  assumes "consistentCompare lc" "0 < compareTopN lc a b"
  shows "compareTopN lc b a \<le> 0"
proof -
  have "lc (FrameGroupID b) (FrameGroupID a) < 0 \<longleftrightarrow> 0 < lc (FrameGroupID a) (FrameGroupID b)"
    by (rule consistentCompareD(1) [OF assms(1)])
  with assms(2) show ?thesis
    by (auto simp: compareTopN_def split: if_splits)
qed

lemma compareTopN_equiv:
  assumes "consistentCompare lc" "compareTopN lc a b \<le> 0" "compareTopN lc b a \<le> 0"
  shows "lc (FrameGroupID a) (FrameGroupID b) = 0"
proof -
  have sw: "lc (FrameGroupID a) (FrameGroupID b) < 0 \<longleftrightarrow> 0 < lc (FrameGroupID b) (FrameGroupID a)"
    by (rule consistentCompareD(1) [OF assms(1)])
  from assms(2,3) have "lc (FrameGroupID a) (FrameGroupID b) \<le> 0"
    and "lc (FrameGroupID b) (FrameGroupID a) \<le> 0"
    by (auto simp: compareTopN_le)
  with sw show ?thesis by linarith
qed

lemma sorted_rev_sortBy_compareTopN:
  assumes "consistentCompare lc"
  shows "sorted_wrt (\<lambda>a b. compareTopN lc b a \<le> 0) (rev (sortBy (compareTopN lc) xs))"
proof -
  have "sorted_wrt (\<lambda>a b. compareTopN lc a b \<le> 0) (sortBy (compareTopN lc) xs)"
    by (rule sorted_sortBy) (erule (1) compareTopN_trans [OF assms], erule compareTopN_total [OF assms])
  then show ?thesis by (simp add: sorted_wrt_rev)
qed

lemma sorted_sortBy_compareDescending:
  assumes "consistentCompare lc"
  shows "sorted_wrt (\<lambda>a b. compareTopN lc b a \<le> 0) (sortBy (compareDescending lc) xs)"
proof -
  have "sorted_wrt (\<lambda>a b. compareDescending lc a b \<le> 0) (sortBy (compareDescending lc) xs)"
  proof (rule sorted_sortBy)
    fix a b c
    assume "compareDescending lc a b \<le> 0" "compareDescending lc b c \<le> 0"
    then show "compareDescending lc a c \<le> 0"
      using compareTopN_trans [OF assms, of c b a] by (simp add: compareDescending_le)
  next
    fix a b
    assume "0 < compareDescending lc a b"
    then have "0 < compareTopN lc b a"
      by (auto simp: compareTopN_def compareDescending_def split: if_splits)
    then show "compareDescending lc b a \<le> 0"
      using compareTopN_total [OF assms, of b a] by (simp add: compareDescending_le)
  qed
  then show ?thesis by (simp add: compareDescending_le)
qed

lemma nonEquivalent_entries:
  assumes lc: "consistentCompare lc"
    and ne: "pairwiseNonEquivalent lc (map FrameGroupID xs)"
    and ab: "a \<in> set xs" "b \<in> set xs"
    and z: "lc (FrameGroupID a) (FrameGroupID b) = 0"
  shows "a = b"
proof -
  from ab obtain i j where i: "i < length xs" "xs ! i = a" and j: "j < length xs" "xs ! j = b"
    by (auto simp: in_set_conv_nth)
  have "i = j"
  proof (rule ccontr)
    assume "i \<noteq> j"
    with ne i(1) j(1) have "lc (map FrameGroupID xs ! i) (map FrameGroupID xs ! j) \<noteq> 0"
      unfolding pairwiseNonEquivalent_def by simp
    with i j z show False by simp
  qed
  with i j show ?thesis by simp
qed

lemma rev_sort_eq_sort_descending:
  assumes lc: "consistentCompare lc" and ne: "pairwiseNonEquivalent lc (map FrameGroupID xs)"
  shows "rev (sortBy (compareTopN lc) xs) = sortBy (compareDescending lc) xs"
proof (rule sorted_wrt_unique [where R = "\<lambda>a b. compareTopN lc b a \<le> 0"])
  show "sorted_wrt (\<lambda>a b. compareTopN lc b a \<le> 0) (rev (sortBy (compareTopN lc) xs))"
    by (rule sorted_rev_sortBy_compareTopN [OF lc])
  show "sorted_wrt (\<lambda>a b. compareTopN lc b a \<le> 0) (sortBy (compareDescending lc) xs)"
    by (rule sorted_sortBy_compareDescending [OF lc])
  show "mset (rev (sortBy (compareTopN lc) xs)) = mset (sortBy (compareDescending lc) xs)"
    by (simp add: mset_sortBy)
next
  fix a b
  assume "a \<in> set (rev (sortBy (compareTopN lc) xs))" "b \<in> set (rev (sortBy (compareTopN lc) xs))"
  then have ab: "a \<in> set xs" "b \<in> set xs" by (simp_all add: set_sortBy)
  assume "compareTopN lc b a \<le> 0" "compareTopN lc a b \<le> 0"
  then have "lc (FrameGroupID a) (FrameGroupID b) = 0"
    using compareTopN_equiv [OF lc, of a b] by simp
  with lc ne ab show "a = b" by (rule nonEquivalent_entries)
qed

lemma consistentCompare_lexicographicCompare: "consistentCompare lexicographicCompare"
  unfolding consistentCompare_def lexicographicCompare_def
  by (intro conjI allI) (auto split: if_splits)

lemma consistentCompare_ignorableCompare: "consistentCompare ignorableCompare"
proof -
  have 1: "ignorableCompare a b < 0 \<longleftrightarrow> 0 < ignorableCompare b a" for a b
    unfolding ignorableCompare_def
    by (rule consistentCompareD(1) [OF consistentCompare_lexicographicCompare])
  have 2: "ignorableCompare a c \<le> 0" if "ignorableCompare a b \<le> 0 \<and> ignorableCompare b c \<le> 0"
    for a b c
    using that unfolding ignorableCompare_def
    by (blast intro: consistentCompareD(2) [OF consistentCompare_lexicographicCompare])
  show ?thesis
    unfolding consistentCompare_def using 1 2 by blast
qed

lemma pairwiseNonEquivalent_Nil [simp]: "pairwiseNonEquivalent lc []"
  by (simp add: pairwiseNonEquivalent_def)

lemma pairwiseNonEquivalent_Cons:
  "pairwiseNonEquivalent lc (x # xs) \<longleftrightarrow>
   list_all (\<lambda>y. lc x y \<noteq> 0 \<and> lc y x \<noteq> 0) xs \<and> pairwiseNonEquivalent lc xs"
proof
  assume h: "pairwiseNonEquivalent lc (x # xs)"
  have hh: "lc ((x # xs) ! i) ((x # xs) ! j) \<noteq> 0"
    if "i < Suc (length xs)" "j < Suc (length xs)" "i \<noteq> j" for i j
    using h that unfolding pairwiseNonEquivalent_def by simp
  have a: "lc x y \<noteq> 0 \<and> lc y x \<noteq> 0" if "y \<in> set xs" for y
  proof -
    from that obtain j where j: "j < length xs" "xs ! j = y" by (auto simp: in_set_conv_nth)
    from hh [of 0 "Suc j"] hh [of "Suc j" 0] j show ?thesis by simp
  qed
  have b: "pairwiseNonEquivalent lc xs"
    unfolding pairwiseNonEquivalent_def
  proof (intro allI impI)
    fix i j assume "i < length xs" "j < length xs" "i \<noteq> j"
    with hh [of "Suc i" "Suc j"] show "lc (xs ! i) (xs ! j) \<noteq> 0" by simp
  qed
  from a b show "list_all (\<lambda>y. lc x y \<noteq> 0 \<and> lc y x \<noteq> 0) xs \<and> pairwiseNonEquivalent lc xs"
    by (simp add: list_all_iff)
next
  assume h: "list_all (\<lambda>y. lc x y \<noteq> 0 \<and> lc y x \<noteq> 0) xs \<and> pairwiseNonEquivalent lc xs"
  then have a: "lc x (xs ! j) \<noteq> 0 \<and> lc (xs ! j) x \<noteq> 0" if "j < length xs" for j
    using that by (simp add: list_all_iff)
  from h have b: "lc (xs ! i) (xs ! j) \<noteq> 0" if "i < length xs" "j < length xs" "i \<noteq> j" for i j
    using that unfolding pairwiseNonEquivalent_def by simp
  show "pairwiseNonEquivalent lc (x # xs)"
    unfolding pairwiseNonEquivalent_def
  proof (intro allI impI)
    fix i j assume ij: "i < length (x # xs)" "j < length (x # xs)" "i \<noteq> j"
    show "lc ((x # xs) ! i) ((x # xs) ! j) \<noteq> 0"
    proof (cases i)
      case 0
      with ij obtain j' where "j = Suc j'" "j' < length xs" by (cases j) auto
      with 0 a [of j'] show ?thesis by simp
    next
      case i: (Suc i')
      show ?thesis
      proof (cases j)
        case 0
        with i ij a [of i'] show ?thesis by simp
      next
        case (Suc j')
        with i ij b [of i' j'] show ?thesis by simp
      qed
    qed
  qed
qed

subsection \<open>The counts of an entry\<close>

lemma lookup_inclusive: "map_of m g = Some e \<Longrightarrow> CountInclusive e = inclusiveOf m g"
  by (simp add: inclusiveOf_def)

lemma lookup_exclusive: "map_of m g = Some e \<Longrightarrow> CountExclusive e = exclusiveOf m g"
  by (simp add: exclusiveOf_def)

lemma accumulate_entry_inclusive:
  "map_of (snd (accumulate d p)) g = Some e \<Longrightarrow>
   CountInclusive e = (\<Sum>ev\<leftarrow>events p. inclusiveShare d p g ev)"
  by (simp add: lookup_inclusive accumulate_inclusive)

lemma accumulate_entry_exclusive:
  "map_of (snd (accumulate d p)) g = Some e \<Longrightarrow>
   CountExclusive e = (\<Sum>ev\<leftarrow>events p. exclusiveShare d p g ev)"
  by (simp add: lookup_exclusive accumulate_exclusive)

lemma accumulate_lookup_defined:
  "g \<in> set (groupsOf d p (fst ev)) \<Longrightarrow> ev \<in> set (events p) \<Longrightarrow>
   \<exists>e. map_of (snd (accumulate d p)) g = Some e"
proof -
  assume "g \<in> set (groupsOf d p (fst ev))" "ev \<in> set (events p)"
  then have "g \<in> fst ` set (snd (accumulate d p))"
    unfolding accumulate_keys by blast
  then show ?thesis
    by (metis map_of_eq_None_iff not_Some_eq)
qed

subsection \<open>The returned rows\<close>

lemma set_slice: "set (slice xs s e) \<subseteq> set xs"
  by (auto simp: slice_def Let_def dest!: in_set_takeD in_set_dropD)

lemma set_rankTopN: "set (rankTopN lc m) = snd ` set m"
  by (simp add: rankTopN_def set_sortBy)

lemma length_rankTopN: "length (rankTopN lc m) = length m"
  by (simp add: rankTopN_def length_sortBy)

lemma TopN_createTopNFunctions:
  "TopN (createTopNFunctions d p) =
    map (makeRow d (fst (accumulate d p)) (totalSeconds p))
      (enumerate 0
        (slice (rankTopN (localeCompare d) (snd (accumulate d p)))
           (clampIndex (startIndex p) (length (rankTopN (localeCompare d) (snd (accumulate d p)))))
           (clampIndex (endIndex p) (length (rankTopN (localeCompare d) (snd (accumulate d p)))))))"
  by (cases "accumulate d p") (simp add: createTopNFunctions_def Let_def)

lemma TotalCount_createTopNFunctions:
  "TotalCount (createTopNFunctions d p) = fst (accumulate d p)"
  by (cases "accumulate d p") (simp add: createTopNFunctions_def Let_def)

lemma in_set_enumerateD: "(i, x) \<in> set (enumerate n xs) \<Longrightarrow> x \<in> set xs"
  by (auto simp: in_set_enumerate_eq)

lemma row_from_entry:
  assumes "row \<in> set (TopN (createTopNFunctions d p))"
  shows "\<exists>i e. e \<in> snd ` set (snd (accumulate d p)) \<and>
           row = makeRow d (fst (accumulate d p)) (totalSeconds p) (i, e)"
proof -
  define topN where "topN = rankTopN (localeCompare d) (snd (accumulate d p))"
  define sl where "sl = slice topN (clampIndex (startIndex p) (length topN))
                          (clampIndex (endIndex p) (length topN))"
  have "TopN (createTopNFunctions d p) =
        map (makeRow d (fst (accumulate d p)) (totalSeconds p)) (enumerate 0 sl)"
    by (simp only: TopN_createTopNFunctions sl_def topN_def)
  with assms have "row \<in> makeRow d (fst (accumulate d p)) (totalSeconds p) ` set (enumerate 0 sl)"
    by simp
  then obtain ix where ix: "ix \<in> set (enumerate 0 sl)"
    and row: "row = makeRow d (fst (accumulate d p)) (totalSeconds p) ix"
    by (rule imageE)
  obtain i e where ie: "ix = (i, e)" by (cases ix)
  from ix ie have "e \<in> set sl" by (simp add: in_set_enumerateD)
  then have "e \<in> set topN"
    using set_slice [of topN] unfolding sl_def by (rule subsetD [rotated])
  then have "e \<in> snd ` set (snd (accumulate d p))"
    by (simp only: topN_def set_rankTopN)
  with row ie show ?thesis by (intro exI conjI) simp_all
qed

lemma makeRow_fields:
  "Rank (makeRow d t s (i, e)) = i + 1"
  "RowFrame (makeRow d t s (i, e)) = Frame e"
  "RowCountExclusive (makeRow d t s (i, e)) = CountExclusive e"
  "RowCountInclusive (makeRow d t s (i, e)) = CountInclusive e"
  "RowId (makeRow d t s (i, e)) = FrameGroupID e"
  "RowSelfCPUPerc (makeRow d t s (i, e)) = (CountExclusive e / t) * 100"
  "RowTotalCPUPerc (makeRow d t s (i, e)) = (CountInclusive e / t) * 100"
  "RowImpactEstimates (makeRow d t s (i, e)) =
     (if s > 0 then Some (calculateImpactEstimates d (CountExclusive e) (CountInclusive e) t s)
      else None)"
  by (simp_all add: makeRow_def Let_def)

subsection \<open>Evaluating the concrete input\<close>

lemmas example_defs = exampleParams_def exampleDeps_def exampleTrace_def exampleFrame_def
  groupsOf_def traceOf_def frameGroups_def frameGroupAt_def arrayGet_def

lemmas eval_defs = createTopNFunctions_def accumulate_def eventStep_def frameStep_def modify_def
  rankTopN_def compareTopN_def lexicographicCompare_def clampIndex_def slice_def enumerate_eq_zip
  makeRow_def Let_def

lemma example_accumulate: "snd (accumulate exampleDeps exampleParams) = exampleAccumulator"
  by (simp add: accumulate_def eventStep_def frameStep_def modify_def example_defs upt_rec
        exampleAccumulator_def Let_def)

lemma tie_accumulate:
  "snd (accumulate tieDeps tieParams) =
    [(''A'', \<lparr>Frame = ''A'', FrameGroupID = ''A'', CountExclusive = 0, CountInclusive = 10\<rparr>),
     (''A'' @ [CHR 0xAD], \<lparr>Frame = ''A'' @ [CHR 0xAD], FrameGroupID = ''A'' @ [CHR 0xAD],
        CountExclusive = 0, CountInclusive = 10\<rparr>),
     (''C'', \<lparr>Frame = ''C'', FrameGroupID = ''C'', CountExclusive = 10, CountInclusive = 10\<rparr>)]"
  by (simp add: accumulate_def eventStep_def frameStep_def modify_def tieDeps_def tieParams_def
        example_defs upt_rec Let_def)

subsection \<open>Sums of scaled counts\<close>

lemma inclusive_sum_unfold:
  "(\<Sum>ev\<leftarrow>evs. inclusiveShare d p g ev) =
   (\<Sum>ev\<leftarrow>evs. if g \<in> set (groupsOf d p (fst ev)) then snd ev * (1 / samplingRate p) else 0)"
  unfolding inclusiveShare_def scaled_def by (rule refl)

lemma exclusive_sum_unfold:
  "(\<Sum>ev\<leftarrow>evs. exclusiveShare d p g ev) =
   (\<Sum>ev\<leftarrow>evs. if groupsOf d p (fst ev) \<noteq> [] \<and> last (groupsOf d p (fst ev)) = g
                 then snd ev * (1 / samplingRate p) else 0)"
  unfolding exclusiveShare_def scaled_def by (rule refl)

lemma single_event_lookup:
  assumes "events p = [(T, c)]" "g \<in> set (groupsOf d p T)"
  shows "\<exists>e. map_of (snd (accumulate d p)) g = Some e \<and>
           CountInclusive e = c * (1 / samplingRate p) \<and>
           CountExclusive e = (if last (groupsOf d p T) = g then c * (1 / samplingRate p) else 0)"
proof -
  from assms have "\<exists>e. map_of (snd (accumulate d p)) g = Some e"
    using accumulate_lookup_defined [of g d p "(T, c)"] by simp
  then obtain e where e: "map_of (snd (accumulate d p)) g = Some e" ..
  from assms(2) have ne: "groupsOf d p T \<noteq> []" by auto
  have "CountInclusive e = c * (1 / samplingRate p)"
    using assms by (simp add: accumulate_entry_inclusive [OF e] inclusiveShare_def scaled_def)
  moreover have "CountExclusive e = (if last (groupsOf d p T) = g then c * (1 / samplingRate p) else 0)"
    using assms ne by (simp add: accumulate_entry_exclusive [OF e] exclusiveShare_def scaled_def)
  ultimately show ?thesis using e by simp
qed

subsection \<open>Slices and clamped indices\<close>

lemma slice_nonneg:
  "0 \<le> s \<Longrightarrow> 0 \<le> e \<Longrightarrow> s \<le> int (length xs) \<Longrightarrow> e \<le> int (length xs) \<Longrightarrow>
   slice xs s e = take (nat (e - s)) (drop (nat s) xs)"
  by (simp add: slice_def Let_def min_def)

lemma slice_at_end: "slice xs (int (length xs)) e = []"
  by (simp add: slice_def Let_def)

lemma clampIndex_min: "clampIndex i n = min i (int n)"
  by (simp add: clampIndex_def min_def)

subsection \<open>Impact estimates\<close>

lemma impactEstimates_createTopNFunctions:
  "impactEstimates (createTopNFunctions d p) =
    (if totalSeconds p > 0
     then Some (calculateImpactEstimates d
                  (sum_list (map RowCountExclusive (TopN (createTopNFunctions d p))))
                  (sum_list (map RowCountInclusive (TopN (createTopNFunctions d p))))
                  (TotalCount (createTopNFunctions d p)) (totalSeconds p))
     else None)"
  by (cases "accumulate d p") (simp add: createTopNFunctions_def Let_def)

lemma row_impactEstimates:
  assumes "row \<in> set (TopN (createTopNFunctions d p))"
  shows "RowImpactEstimates row =
    (if totalSeconds p > 0
     then Some (calculateImpactEstimates d (RowCountExclusive row) (RowCountInclusive row)
                  (TotalCount (createTopNFunctions d p)) (totalSeconds p))
     else None)"
proof -
  from row_from_entry [OF assms] obtain i e
    where "row = makeRow d (fst (accumulate d p)) (totalSeconds p) (i, e)" by blast
  then show ?thesis
    by (simp add: makeRow_fields TotalCount_createTopNFunctions)
qed

section \<open>Properties of double-precision arithmetic\<close>

subsection \<open>The binary exponent\<close>

lemma ilog2_bounds:
  assumes "0 < x"
  shows "power_int 2 (ilog2 x) \<le> x" and "x < power_int 2 (ilog2 x + 1)"
proof -
  have "power_int 2 (ilog2 x) \<le> x \<and> x < power_int 2 (ilog2 x + 1)"
  proof (cases "1 \<le> x")
    case True
    define n where "n = \<lfloor>x\<rfloor>"
    have n: "1 \<le> n" using True by (simp add: n_def le_floor_iff)
    then have bl: "1 \<le> bitlen n" by (auto simp: bitlen_alt_def)
    from bitlen_bounds [of n] n
    have b: "2 ^ nat (bitlen n - 1) \<le> n" "n < 2 ^ nat (bitlen n)" by simp_all
    have il: "ilog2 x = bitlen n - 1" using True by (simp add: ilog2_def n_def)
    have fl: "(of_int n :: rat) \<le> x" "x < of_int n + 1"
      unfolding n_def using floor_correct [of x] by simp_all
    have "(of_int (2 ^ nat (bitlen n - 1)) :: rat) \<le> of_int n"
      using b(1) by (rule of_int_le_iff [THEN iffD2])
    then have r1: "(2::rat) ^ nat (bitlen n - 1) \<le> of_int n" by simp
    have "n + 1 \<le> 2 ^ nat (bitlen n)" using b(2) by simp
    then have "(of_int (n + 1) :: rat) \<le> of_int (2 ^ nat (bitlen n))"
      by (rule of_int_le_iff [THEN iffD2])
    then have r2: "(of_int n :: rat) + 1 \<le> 2 ^ nat (bitlen n)" by simp
    have p1: "power_int (2::rat) (bitlen n - 1) = 2 ^ nat (bitlen n - 1)"
      using bl by (simp add: power_int_def)
    have p2: "power_int (2::rat) (bitlen n - 1 + 1) = 2 ^ nat (bitlen n)"
      using bl by (simp add: power_int_def)
    show ?thesis unfolding il p1 p2 using fl r1 r2 by linarith
  next
    case False
    define y where "y = 1 / x"
    define n where "n = \<lceil>y\<rceil> - 1"
    define k where "k = bitlen n"
    from False assms have y1: "1 < y" by (simp add: y_def)
    then have n: "1 \<le> n" unfolding n_def by (simp add: less_ceiling_iff)
    then have bl: "1 \<le> k" by (auto simp: bitlen_alt_def k_def)
    from bitlen_bounds [of n] n
    have b: "2 ^ nat (k - 1) \<le> n" "n < 2 ^ nat k" by (simp_all add: k_def)
    have il: "ilog2 x = - k" using False by (simp add: ilog2_def n_def y_def k_def)
    have ny: "of_int n < y" unfolding n_def using ceiling_correct [of y] by simp
    have yn: "y \<le> of_int (n + 1)" unfolding n_def by simp
    have "(of_int (2 ^ nat (k - 1)) :: rat) \<le> of_int n"
      using b(1) by (rule of_int_le_iff [THEN iffD2])
    then have "(2::rat) ^ nat (k - 1) \<le> of_int n" by simp
    with ny have lo: "(2 ^ nat (k - 1) :: rat) < y" by linarith
    have "n + 1 \<le> 2 ^ nat k" using b(2) by simp
    then have "(of_int (n + 1) :: rat) \<le> of_int (2 ^ nat k)"
      by (rule of_int_le_iff [THEN iffD2])
    then have "(of_int (n + 1) :: rat) \<le> 2 ^ nat k" by simp
    with yn have hi: "y \<le> 2 ^ nat k" by linarith
    have p1: "power_int (2::rat) (- k) = 1 / 2 ^ nat k"
      using bl by (simp add: power_int_def field_simps)
    have p2: "power_int (2::rat) (- k + 1) = 1 / 2 ^ nat (k - 1)"
      using bl by (simp add: power_int_def field_simps)
    have x: "x = 1 / y" using assms by (simp add: y_def)
    have ypos: "0 < y" using y1 by simp
    have "1 / 2 ^ nat k \<le> 1 / y"
      using hi ypos by (simp add: frac_le)
    moreover have "1 / y < 1 / 2 ^ nat (k - 1)"
      using lo by (simp add: frac_less2)
    ultimately have "1 / 2 ^ nat k \<le> x \<and> x < 1 / 2 ^ nat (k - 1)"
      by (simp only: x [symmetric])
    then show ?thesis by (simp only: il p1 p2)
  qed
  then show "power_int 2 (ilog2 x) \<le> x" and "x < power_int 2 (ilog2 x + 1)" by simp_all
qed

lemma pow2_less_cancel:
  assumes "power_int (2::rat) a < power_int 2 b"
  shows "a < b"
proof (rule ccontr)
  assume "\<not> a < b"
  then have "b \<le> a" by simp
  then have "power_int (2::rat) b \<le> power_int 2 a"
    by (rule power_int_increasing) simp
  with assms show False by simp
qed

lemma ilog2_unique:
  assumes "0 < x" "power_int 2 k \<le> x" "x < power_int 2 (k + 1)"
  shows "ilog2 x = k"
proof -
  from ilog2_bounds [OF assms(1)] assms(2,3)
  have a: "power_int (2::rat) (ilog2 x) < power_int 2 (k + 1)"
    and b: "power_int (2::rat) k < power_int 2 (ilog2 x + 1)"
    by simp_all
  from a have "ilog2 x < k + 1" by (rule pow2_less_cancel)
  moreover from b have "k < ilog2 x + 1" by (rule pow2_less_cancel)
  ultimately show ?thesis by simp
qed

subsection \<open>Rounding is monotone\<close>

lemma roundHalfEven_cases:
  "roundHalfEven q = \<lfloor>q\<rfloor> \<and> q - of_int \<lfloor>q\<rfloor> \<le> 1 / 2 \<or>
   roundHalfEven q = \<lfloor>q\<rfloor> + 1 \<and> 1 / 2 \<le> q - of_int \<lfloor>q\<rfloor>"
  by (auto simp: roundHalfEven_def Let_def)

lemma roundHalfEven_of_int [simp]: "roundHalfEven (of_int n) = n"
  by (simp add: roundHalfEven_def Let_def)

lemma roundHalfEven_mono:
  assumes "a \<le> b"
  shows "roundHalfEven a \<le> roundHalfEven b"
proof (cases "\<lfloor>a\<rfloor> = \<lfloor>b\<rfloor>")
  case True
  with assms show ?thesis
    by (auto simp: roundHalfEven_def Let_def)
next
  case False
  with assms have "\<lfloor>a\<rfloor> + 1 \<le> \<lfloor>b\<rfloor>"
    using floor_mono [OF assms] by simp
  moreover have "roundHalfEven a \<le> \<lfloor>a\<rfloor> + 1"
    using roundHalfEven_cases [of a] by auto
  moreover have "\<lfloor>b\<rfloor> \<le> roundHalfEven b"
    using roundHalfEven_cases [of b] by auto
  ultimately show ?thesis by simp
qed

lemma roundHalfEven_ge: "of_int k \<le> q \<Longrightarrow> k \<le> roundHalfEven q"
  using roundHalfEven_mono [of "of_int k" q] by simp

lemma roundHalfEven_le: "q \<le> of_int k \<Longrightarrow> roundHalfEven q \<le> k"
  using roundHalfEven_mono [of q "of_int k"] by simp

lemma roundHalfEven_near:
  "\<bar>q - of_int m\<bar> < 1 / 2 \<Longrightarrow> roundHalfEven q = m"
proof -
  assume a: "\<bar>q - of_int m\<bar> < 1 / 2"
  show ?thesis
  proof (cases "of_int m \<le> q")
    case True
    with a have "\<lfloor>q\<rfloor> = m" by (intro floor_unique) auto
    with a True show ?thesis by (auto simp: roundHalfEven_def Let_def)
  next
    case False
    with a have "\<lfloor>q\<rfloor> = m - 1" by (intro floor_unique) auto
    with a False show ?thesis by (auto simp: roundHalfEven_def Let_def)
  qed
qed

lemma ilog2_mono:
  assumes "0 < x" "x \<le> y"
  shows "ilog2 x \<le> ilog2 y"
proof -
  have "power_int (2::rat) (ilog2 x) \<le> x" using assms(1) by (rule ilog2_bounds)
  also note assms(2)
  also have "y < power_int 2 (ilog2 y + 1)" using assms by (intro ilog2_bounds) simp
  finally have "ilog2 x < ilog2 y + 1" by (rule pow2_less_cancel)
  then show ?thesis by simp
qed

lemma exponentOf_mono: "0 < x \<Longrightarrow> x \<le> y \<Longrightarrow> exponentOf x \<le> exponentOf y"
  using ilog2_mono [of x y] by (simp add: exponentOf_def)

lemma exponentOf_ge: "- 1074 \<le> exponentOf x"
  by (simp add: exponentOf_def)

text \<open>The scaled value is below \<open>2 ^ 53\<close>, and at least \<open>2 ^ 52\<close> above the subnormal range.\<close>

lemma scaled_less:
  assumes "0 < x"
  shows "x / power_int 2 (exponentOf x) < 2 ^ 53"
proof -
  have "x < power_int 2 (ilog2 x + 1)" using assms by (rule ilog2_bounds)
  also have "power_int (2::rat) (ilog2 x + 1) = power_int 2 (ilog2 x - 52) * 2 ^ 53"
    by (simp add: power_int_add power_int_diff)
  also have "\<dots> \<le> power_int 2 (exponentOf x) * 2 ^ 53"
    by (intro mult_right_mono power_int_increasing) (simp_all add: exponentOf_def)
  finally show ?thesis
    by (simp add: pos_divide_less_eq mult.commute)
qed

lemma scaled_ge:
  assumes "0 < x" "exponentOf x \<noteq> - 1074"
  shows "2 ^ 52 \<le> x / power_int 2 (exponentOf x)"
proof -
  from assms(2) have e: "exponentOf x = ilog2 x - 52"
    by (simp add: exponentOf_def max_def split: if_splits)
  have "power_int (2::rat) (ilog2 x - 52) * 2 ^ 52 = power_int 2 (ilog2 x)"
    by (simp add: power_int_diff)
  also have "\<dots> \<le> x" using assms(1) by (rule ilog2_bounds)
  finally show ?thesis
    unfolding e by (simp add: pos_le_divide_eq mult.commute)
qed

lemma nearest_upper:
  assumes "0 < x"
  shows "nearest x \<le> power_int 2 (exponentOf x + 53)"
proof -
  have "roundHalfEven (x / power_int 2 (exponentOf x)) \<le> 2 ^ 53"
    using scaled_less [OF assms] by (intro roundHalfEven_le) simp
  then have "(of_int (roundHalfEven (x / power_int 2 (exponentOf x))) :: rat) \<le> of_int (2 ^ 53)"
    by (rule of_int_le_iff [THEN iffD2])
  then have "nearest x \<le> 2 ^ 53 * power_int 2 (exponentOf x)"
    unfolding nearest_def by (intro mult_right_mono) simp_all
  also have "\<dots> = power_int 2 (exponentOf x + 53)"
    by (simp add: power_int_add)
  finally show ?thesis .
qed

lemma nearest_lower:
  assumes "0 < x" "exponentOf x \<noteq> - 1074"
  shows "power_int 2 (exponentOf x + 52) \<le> nearest x"
proof -
  have "2 ^ 52 \<le> roundHalfEven (x / power_int 2 (exponentOf x))"
    using scaled_ge [OF assms] by (intro roundHalfEven_ge) simp
  then have "(of_int (2 ^ 52) :: rat) \<le> of_int (roundHalfEven (x / power_int 2 (exponentOf x)))"
    by (rule of_int_le_iff [THEN iffD2])
  then have "2 ^ 52 * power_int 2 (exponentOf x) \<le> nearest x"
    unfolding nearest_def by (intro mult_right_mono) simp_all
  moreover have "2 ^ 52 * power_int (2::rat) (exponentOf x) = power_int 2 (exponentOf x + 52)"
    by (simp add: power_int_add)
  ultimately show ?thesis by simp
qed

lemma nearest_nonneg: "0 \<le> x \<Longrightarrow> 0 \<le> nearest x"
  unfolding nearest_def
  by (intro mult_nonneg_nonneg) (simp_all add: roundHalfEven_ge)

lemma nearest_mono:
  assumes "0 < x" "x \<le> y"
  shows "nearest x \<le> nearest y"
proof (cases "exponentOf x = exponentOf y")
  case True
  have "x / power_int 2 (exponentOf y) \<le> y / power_int 2 (exponentOf y)"
    using assms(2) by (simp add: divide_right_mono)
  then have "roundHalfEven (x / power_int 2 (exponentOf y)) \<le> roundHalfEven (y / power_int 2 (exponentOf y))"
    by (rule roundHalfEven_mono)
  then have "(of_int (roundHalfEven (x / power_int 2 (exponentOf y))) :: rat)
      \<le> of_int (roundHalfEven (y / power_int 2 (exponentOf y)))"
    by (rule of_int_le_iff [THEN iffD2])
  then show ?thesis
    unfolding nearest_def True by (intro mult_right_mono) simp_all
next
  case False
  with exponentOf_mono [OF assms] have lt: "exponentOf x + 1 \<le> exponentOf y" by simp
  with exponentOf_ge [of x] have ne: "exponentOf y \<noteq> - 1074" by simp
  have "nearest x \<le> power_int 2 (exponentOf x + 53)"
    using assms(1) by (rule nearest_upper)
  also have "\<dots> \<le> power_int 2 (exponentOf y + 52)"
    using lt by (intro power_int_increasing) simp_all
  also have "\<dots> \<le> nearest y"
    using assms ne by (intro nearest_lower) simp_all
  finally show ?thesis .
qed

subsection \<open>Rounding leaves a double unchanged\<close>

lemma exponentOf_fixed:
  assumes m: "0 < m" "m < 2 ^ 53" and e: "- 1074 \<le> e" and n: "2 ^ 52 \<le> m \<or> e = - 1074"
  shows "exponentOf (of_int m * power_int 2 e) = e"
proof -
  define v :: rat where "v = of_int m * power_int 2 e"
  have mr: "(0::rat) < of_int m" "(of_int m :: rat) < 2 ^ 53"
    using m by (simp, metis of_int_less_iff of_int_numeral of_int_power)
  have vpos: "0 < v" unfolding v_def using mr by (intro mult_pos_pos) simp_all
  have vhi: "v < power_int 2 (e + 53)"
  proof -
    have "v < 2 ^ 53 * power_int 2 e"
      unfolding v_def using mr by (intro mult_strict_right_mono) simp_all
    then show ?thesis by (simp add: power_int_add)
  qed
  show ?thesis
  proof (cases "2 ^ 52 \<le> m")
    case True
    then have "(of_int (2 ^ 52) :: rat) \<le> of_int m" by (rule of_int_le_iff [THEN iffD2])
    then have "2 ^ 52 * power_int 2 e \<le> v"
      unfolding v_def by (intro mult_right_mono) simp_all
    then have "power_int 2 (e + 52) \<le> v" by (simp add: power_int_add)
    moreover have "v < power_int 2 (e + 52 + 1)" using vhi by (simp add: add.assoc)
    ultimately have "ilog2 v = e + 52" using vpos by (intro ilog2_unique)
    then show ?thesis using e by (simp add: exponentOf_def v_def)
  next
    case False
    with n have e': "e = - 1074" by simp
    from False have "m < 2 ^ 52" by simp
    then have "(of_int m :: rat) < of_int (2 ^ 52)" by (rule of_int_less_iff [THEN iffD2])
    then have "v < 2 ^ 52 * power_int 2 e"
      unfolding v_def by (intro mult_strict_right_mono) simp_all
    then have "v < power_int 2 (e + 52)" by (simp add: power_int_add)
    moreover have "power_int 2 (ilog2 v) \<le> v" using vpos by (rule ilog2_bounds)
    ultimately have "power_int (2::rat) (ilog2 v) < power_int 2 (e + 52)" by simp
    then have "ilog2 v < e + 52" by (rule pow2_less_cancel)
    then show ?thesis using e' by (simp add: exponentOf_def v_def)
  qed
qed

lemma nearest_fixed:
  assumes m: "0 < m" "m < 2 ^ 53" and e: "- 1074 \<le> e" and n: "2 ^ 52 \<le> m \<or> e = - 1074"
  shows "nearest (of_int m * power_int 2 e) = of_int m * power_int 2 e"
  unfolding nearest_def exponentOf_fixed [OF assms] by simp

lemma nearest_idem:
  assumes "0 < x"
  shows "nearest (nearest x) = nearest x"
proof -
  define e where "e = exponentOf x"
  define m where "m = roundHalfEven (x / power_int 2 e)"
  have v: "nearest x = of_int m * power_int 2 e" by (simp add: nearest_def m_def e_def)
  have e: "- 1074 \<le> e" by (simp add: e_def exponentOf_ge)
  have m0: "0 \<le> m" unfolding m_def using assms by (intro roundHalfEven_ge) simp
  have m53: "m \<le> 2 ^ 53"
    unfolding m_def e_def using scaled_less [OF assms] by (intro roundHalfEven_le) simp
  have n: "2 ^ 52 \<le> m \<or> e = - 1074"
  proof (cases "e = - 1074")
    case False
    then have "2 ^ 52 \<le> x / power_int 2 (exponentOf x)"
      using scaled_ge [OF assms] by (simp add: e_def)
    then have "2 ^ 52 \<le> m" unfolding m_def e_def by (intro roundHalfEven_ge) simp
    then show ?thesis ..
  qed simp
  consider "m = 0" | "m = 2 ^ 53" | "0 < m" "m < 2 ^ 53" using m0 m53 by linarith
  then show ?thesis
  proof cases
    case 1
    then show ?thesis unfolding v by (simp add: nearest_def roundHalfEven_def)
  next
    case 2
    have "of_int m * power_int (2::rat) e = of_int (2 ^ 52) * power_int 2 (e + 1)"
      unfolding 2 by (simp add: power_int_add)
    moreover have "nearest (of_int (2 ^ 52) * power_int 2 (e + 1)) = of_int (2 ^ 52) * power_int 2 (e + 1)"
      using e by (intro nearest_fixed) simp_all
    ultimately show ?thesis unfolding v by simp
  next
    case 3
    then show ?thesis unfolding v using e n by (intro nearest_fixed)
  qed
qed

subsection \<open>Sums of numbers that are not negative\<close>

lemma stored_cases:
  assumes "stored n"
  obtains "n = PosInf" | x where "0 \<le> x" "n = Finite x" "roundDouble x = Finite x"
  using assms unfolding stored_def by blast

lemma stored_zero [simp]: "stored (Finite 0)"
  by (simp add: stored_def roundDouble_def)

lemma stored_PosInf [simp]: "stored PosInf"
  by (simp add: stored_def)

lemma stored_roundDouble:
  assumes "0 \<le> x"
  shows "stored (roundDouble x)"
proof (cases "x = 0")
  case True
  then show ?thesis by (simp add: roundDouble_def)
next
  case False
  with assms have pos: "0 < x" by simp
  show ?thesis
  proof (cases "2 ^ 1024 \<le> nearest x")
    case True
    with pos show ?thesis by (simp add: roundDouble_def roundPos_def)
  next
    case ov: False
    have r: "roundDouble x = Finite (nearest x)"
      using pos ov by (simp add: roundDouble_def roundPos_def)
    have nn: "0 \<le> nearest x" using assms by (rule nearest_nonneg)
    have "roundDouble (nearest x) = Finite (nearest x)"
    proof (cases "nearest x = 0")
      case True
      then show ?thesis by (simp add: roundDouble_def)
    next
      case False
      with nn have "0 < nearest x" by simp
      then show ?thesis
        using ov nearest_idem [OF pos] by (simp add: roundDouble_def roundPos_def)
    qed
    with nn r show ?thesis unfolding stored_def by blast
  qed
qed

lemma roundDouble_mono:
  assumes "0 \<le> x" "x \<le> y"
  shows "jsLe (roundDouble x) (roundDouble y)"
proof (cases "x = 0")
  case True
  from assms have "stored (roundDouble y)" by (intro stored_roundDouble) simp
  then show ?thesis
    unfolding True by (rule stored_cases) (simp_all add: roundDouble_def)
next
  case False
  with assms have pos: "0 < x" "0 < y" by simp_all
  from nearest_mono [OF pos(1) assms(2)] have "nearest x \<le> nearest y" .
  with pos show ?thesis
    by (auto simp: roundDouble_def roundPos_def)
qed

lemma jsLe_refl: "stored a \<Longrightarrow> jsLe a a"
  by (erule stored_cases) simp_all

lemma jsLe_trans: "jsLe a b \<Longrightarrow> jsLe b c \<Longrightarrow> jsLe a c"
  by (cases a; cases b; cases c) simp_all

lemma jsLe_zero_stored: "stored a \<Longrightarrow> jsLe (Finite 0) a"
  by (erule stored_cases) simp_all

lemma stored_jsAdd: "stored a \<Longrightarrow> stored s \<Longrightarrow> stored (jsAdd a s)"
  by (erule stored_cases; erule stored_cases) (simp_all add: stored_roundDouble)

lemma jsAdd_increasing:
  assumes "stored a" "stored s"
  shows "jsLe a (jsAdd a s)"
proof -
  from assms(1) show ?thesis
  proof (cases rule: stored_cases)
    case 1
    with assms(2) show ?thesis by (auto elim!: stored_cases)
  next
    case a: (2 x)
    from assms(2) show ?thesis
    proof (cases rule: stored_cases)
      case 1
      with a show ?thesis by simp
    next
      case (2 y)
      have "jsLe (roundDouble x) (roundDouble (x + y))"
        using a 2 by (intro roundDouble_mono) simp_all
      with a 2 show ?thesis by simp
    qed
  qed
qed

lemma jsAdd_mono:
  assumes "stored a" "stored b" "stored s" "jsLe a b"
  shows "jsLe (jsAdd a s) (jsAdd b s)"
proof -
  from assms(3) show ?thesis
  proof (cases rule: stored_cases)
    case 1
    with assms(1,2) show ?thesis
      by (auto elim!: stored_cases)
  next
    case (2 z)
    from assms(1) show ?thesis
    proof (cases rule: stored_cases)
      case 1
      with assms(2,4) have "b = PosInf" by (auto elim!: stored_cases)
      with 1 2 show ?thesis by simp
    next
      case a: (2 x)
      from assms(2) show ?thesis
      proof (cases rule: stored_cases)
        case 1
        have "stored (jsAdd a s)" using assms(1,3) by (rule stored_jsAdd)
        then show ?thesis unfolding 1 2 by (auto elim!: stored_cases)
      next
        case b: (2 y)
        from assms(4) a b have "x \<le> y" by simp
        then have "jsLe (roundDouble (x + z)) (roundDouble (y + z))"
          using a(1) 2(1) by (intro roundDouble_mono) simp_all
        then show ?thesis by (simp add: a b 2)
      qed
    qed
  qed
qed

lemma stored_scaled:
  assumes "jsLe (Finite 0) c" "jsLt (Finite 0) rate" "jsMul c (jsDiv (Finite 1) rate) \<noteq> NaN"
  shows "stored (jsMul c (jsDiv (Finite 1) rate))"
proof -
  have sf: "stored (jsDiv (Finite 1) rate)"
    using assms(2) by (cases rate) (simp_all add: stored_roundDouble)
  from assms(1) consider x where "c = Finite x" "0 \<le> x" | "c = PosInf"
    by (cases c) simp_all
  then show ?thesis
  proof cases
    case 1
    from sf show ?thesis
    proof (cases rule: stored_cases)
      case 1
      with assms(3) \<open>c = Finite x\<close> \<open>0 \<le> x\<close> show ?thesis by (simp split: if_splits)
    next
      case (2 y)
      with 1 show ?thesis by (simp add: stored_roundDouble)
    qed
  next
    case 2
    from sf show ?thesis
    proof (cases rule: stored_cases)
      case 1
      with 2 show ?thesis by simp
    next
      case (2 y)
      with assms(3) \<open>c = PosInf\<close> show ?thesis by (simp split: if_splits)
    qed
  qed
qed

subsection \<open>Computing a rounded value\<close>

lemma roundDouble_eqI:
  assumes "0 < x" "power_int 2 k \<le> x" "x < power_int 2 (k + 1)"
    and "e = max (k - 52) (- 1074)"
    and "\<bar>x / power_int 2 e - of_int m\<bar> < 1 / 2"
    and "v = of_int m * power_int 2 e"
    and "v < 2 ^ 1024"
  shows "roundDouble x = Finite v"
proof -
  have "ilog2 x = k" using assms(1-3) by (rule ilog2_unique)
  then have e: "exponentOf x = e" using assms(4) by (simp add: exponentOf_def)
  have "roundHalfEven (x / power_int 2 e) = m" using assms(5) by (rule roundHalfEven_near)
  then have "nearest x = v" unfolding nearest_def e assms(6) by simp
  with assms(1,7) show ?thesis by (simp add: roundDouble_def roundPos_def)
qed

lemma roundDouble_overflow:
  assumes "2 ^ 1024 \<le> x"
  shows "roundDouble x = PosInf"
proof -
  have pos: "0 < x" using assms by (rule less_le_trans [rotated]) simp
  have "nearest (of_int (2 ^ 52) * power_int 2 972) = of_int (2 ^ 52) * power_int 2 972"
    by (rule nearest_fixed) simp_all
  moreover have "(of_int (2 ^ 52) :: rat) * power_int 2 972 = 2 ^ 1024"
    by (simp add: power_add [symmetric])
  ultimately have "nearest (2 ^ 1024) = 2 ^ 1024" by simp
  moreover have "nearest (2 ^ 1024) \<le> nearest x"
    using assms by (intro nearest_mono) simp_all
  ultimately have "2 ^ 1024 \<le> nearest x" by simp
  with pos show ?thesis by (simp add: roundDouble_def roundPos_def)
qed

lemma roundDouble_not_NaN [simp]: "roundDouble x \<noteq> NaN"
  by (simp add: roundDouble_def roundPos_def split: number.splits)


lemma round_2: "roundDouble 2 = Finite 2"
  by (rule roundDouble_eqI [where k = 1 and m = "2 ^ 52" and e = "- 51"]) simp_all

lemma round_6: "roundDouble 6 = Finite 6"
  by (rule roundDouble_eqI [where k = 2 and m = "3 * 2 ^ 51" and e = "- 50"]) simp_all

lemma round_49: "roundDouble 49 = Finite 49"
  by (rule roundDouble_eqI [where k = 5 and m = "49 * 2 ^ 47" and e = "- 47"]) simp_all

lemma round_5: "roundDouble 5 = Finite 5"
  by (rule roundDouble_eqI [where k = 2 and m = "5 * 2 ^ 50" and e = "- 50"]) simp_all

lemma round_64: "roundDouble 64 = Finite 64"
  by (rule roundDouble_eqI [where k = 6 and m = "2 ^ 52" and e = "- 46"]) simp_all

lemma round_49_64: "roundDouble (49 / 64) = Finite (49 / 64)"
  by (rule roundDouble_eqI [where k = "- 1" and m = "49 * 2 ^ 47" and e = "- 53"]) simp_all

lemma round_64_49: "roundDouble (64 / 49) = Finite (5882252574524729 / 2 ^ 52)"
  by (rule roundDouble_eqI [where k = 0 and m = 5882252574524729 and e = "- 52"]) simp_all

lemma round_scaled_49:
  "roundDouble (49 * (5882252574524729 / 2 ^ 52)) = Finite (9007199254740991 / 2 ^ 47)"
  by (rule roundDouble_eqI [where k = 5 and m = 9007199254740991 and e = "- 47"]) simp_all

lemma round_scaled_49_again:
  "roundDouble (9007199254740991 / 2 ^ 47) = Finite (9007199254740991 / 2 ^ 47)"
  by (rule roundDouble_eqI [where k = 5 and m = 9007199254740991 and e = "- 47"]) simp_all

lemma round_scaled_5:
  "roundDouble (5 * (5882252574524729 / 2 ^ 52)) = Finite (7352815718155911 / 2 ^ 50)"
  by (rule roundDouble_eqI [where k = 2 and m = 7352815718155911 and e = "- 50"]) simp_all

lemma round_scaled_5_again:
  "roundDouble (7352815718155911 / 2 ^ 50) = Finite (7352815718155911 / 2 ^ 50)"
  by (rule roundDouble_eqI [where k = 2 and m = 7352815718155911 and e = "- 50"]) simp_all

lemma round_sum_49_5:
  "roundDouble (9007199254740991 / 2 ^ 47 + 7352815718155911 / 2 ^ 50) =
   Finite (4963150609755240 / 2 ^ 46)"
  by (rule roundDouble_eqI [where k = 6 and m = 4963150609755240 and e = "- 46"]) simp_all

lemmas round_facts = round_2 [simplified] round_6 [simplified] round_49 [simplified]
  round_5 [simplified] round_64 [simplified] round_49_64 [simplified] round_64_49 [simplified]
  round_scaled_49 [simplified] round_scaled_49_again [simplified] round_scaled_5 [simplified]
  round_scaled_5_again [simplified] round_sum_49_5 [simplified]

lemma round_min_subnormal: "roundDouble (1 / 2 ^ 1074) = Finite (1 / 2 ^ 1074)"
  by (rule roundDouble_eqI [where k = "- 1074" and m = 1 and e = "- 1074"])
     (simp_all add: power_int_minus field_simps)

section \<open>Properties of the aggregation in doubles\<close>

subsection \<open>One frame position, one stack trace, one event\<close>

lemma inclusiveOfD_modify_incl:
  "k \<in> fst ` set m \<Longrightarrow>
   inclusiveOfD (modify k (\<lambda>e. e\<lparr>CountInclusiveD := jsAdd (CountInclusiveD e) c\<rparr>) m) h =
   (if h = k then jsAdd (inclusiveOfD m h) c else inclusiveOfD m h)"
  by (auto simp: inclusiveOfD_def map_of_modify map_of_eq_None_iff split: option.splits)

lemma inclusiveOfD_modify_excl:
  "inclusiveOfD (modify k (\<lambda>e. e\<lparr>CountExclusiveD := jsAdd (CountExclusiveD e) c\<rparr>) m) h =
   inclusiveOfD m h"
  by (auto simp: inclusiveOfD_def map_of_modify split: option.splits)

lemma exclusiveOfD_modify_excl:
  "k \<in> fst ` set m \<Longrightarrow>
   exclusiveOfD (modify k (\<lambda>e. e\<lparr>CountExclusiveD := jsAdd (CountExclusiveD e) c\<rparr>) m) h =
   (if h = k then jsAdd (exclusiveOfD m h) c else exclusiveOfD m h)"
  by (auto simp: exclusiveOfD_def map_of_modify map_of_eq_None_iff split: option.splits)

lemma exclusiveOfD_modify_incl:
  "exclusiveOfD (modify k (\<lambda>e. e\<lparr>CountInclusiveD := jsAdd (CountInclusiveD e) c\<rparr>) m) h =
   exclusiveOfD m h"
  by (auto simp: exclusiveOfD_def map_of_modify split: option.splits)

lemma inclusiveOfD_ensured:
  "CountInclusiveD e = Finite 0 \<Longrightarrow> inclusiveOfD (ensured g e m) h = inclusiveOfD m h"
  by (auto simp: ensured_def inclusiveOfD_def map_of_append split: option.splits if_splits)

lemma exclusiveOfD_ensured:
  "CountExclusiveD e = Finite 0 \<Longrightarrow> exclusiveOfD (ensured g e m) h = exclusiveOfD m h"
  by (auto simp: ensured_def exclusiveOfD_def map_of_append split: option.splits if_splits)

lemma newEntryD_counts [simp]:
  "CountInclusiveD (newEntryD d sf ex st i) = Finite 0"
  "CountExclusiveD (newEntryD d sf ex st i) = Finite 0"
  by (simp_all add: newEntryD_def Let_def)

lemma frameStepD_unfold:
  "frameStepD d sf ex st len sc i (m, seen) =
     (let g = frameGroupAt d sf ex st i;
          m1 = ensured g (newEntryD d sf ex st i) m;
          m2 = (if g \<notin> seen
                then modify g (\<lambda>e. e\<lparr>CountInclusiveD := jsAdd (CountInclusiveD e) sc\<rparr>) m1
                else m1);
          m3 = (if int i = int len - 1
                then modify g (\<lambda>e. e\<lparr>CountExclusiveD := jsAdd (CountExclusiveD e) sc\<rparr>) m2
                else m2)
      in (m3, insert g seen))"
  unfolding frameStepD_def frameGroupAt_def ensured_def newEntryD_def Let_def
  by (simp add: insert_absorb)

lemma frameStepD_seen:
  "snd (frameStepD d sf ex st len sc i (m, seen)) = insert (frameGroupAt d sf ex st i) seen"
  by (simp add: frameStepD_unfold Let_def)

lemma frameStepD_keys:
  "fst ` set (fst (frameStepD d sf ex st len sc i (m, seen))) =
   insert (frameGroupAt d sf ex st i) (fst ` set m)"
proof -
  have "set (map fst (fst (frameStepD d sf ex st len sc i (m, seen))))
      = set (map fst (ensured (frameGroupAt d sf ex st i) (newEntryD d sf ex st i) m))"
    by (simp add: frameStepD_unfold Let_def map_fst_modify del: set_map)
  then show ?thesis by (simp add: keys_ensured)
qed

lemma frameStepD_distinct:
  "distinct (map fst m) \<Longrightarrow>
   distinct (map fst (fst (frameStepD d sf ex st len sc i (m, seen))))"
  by (simp add: frameStepD_unfold Let_def map_fst_modify distinct_ensured)

lemma frameStepD_inclusive:
  "inclusiveOfD (fst (frameStepD d sf ex st len sc i (m, seen))) h =
   (if h = frameGroupAt d sf ex st i \<and> h \<notin> seen then jsAdd (inclusiveOfD m h) sc
    else inclusiveOfD m h)"
  by (auto simp: frameStepD_unfold Let_def inclusiveOfD_modify_excl inclusiveOfD_modify_incl
       keys_ensured inclusiveOfD_ensured)

lemma frameStepD_exclusive:
  "exclusiveOfD (fst (frameStepD d sf ex st len sc i (m, seen))) h =
   (if h = frameGroupAt d sf ex st i \<and> int i = int len - 1 then jsAdd (exclusiveOfD m h) sc
    else exclusiveOfD m h)"
  by (auto simp: frameStepD_unfold Let_def exclusiveOfD_modify_excl exclusiveOfD_modify_incl
       keys_ensured keys_modify exclusiveOfD_ensured)

lemma fold_frameStepD_keys:
  "fst ` set (fst (fold (frameStepD d sf ex st len sc) is (m, seen))) =
   fst ` set m \<union> frameGroupAt d sf ex st ` set is"
proof (induction "is" arbitrary: m seen)
  case Nil
  then show ?case by simp
next
  case (Cons i "is")
  obtain m' seen' where step: "frameStepD d sf ex st len sc i (m, seen) = (m', seen')"
    by (cases "frameStepD d sf ex st len sc i (m, seen)")
  from frameStepD_keys [of d sf ex st len sc i m seen] step
  have "fst ` set m' = insert (frameGroupAt d sf ex st i) (fst ` set m)" by simp
  with Cons.IH [of m' seen'] step show ?case by auto
qed

lemma fold_frameStepD_distinct:
  "distinct (map fst m) \<Longrightarrow>
   distinct (map fst (fst (fold (frameStepD d sf ex st len sc) is (m, seen))))"
proof (induction "is" arbitrary: m seen)
  case Nil
  then show ?case by simp
next
  case (Cons i "is")
  obtain m' seen' where step: "frameStepD d sf ex st len sc i (m, seen) = (m', seen')"
    by (cases "frameStepD d sf ex st len sc i (m, seen)")
  from frameStepD_distinct [OF Cons.prems, of d sf ex st len sc i seen] step
  have "distinct (map fst m')" by simp
  with Cons.IH [of m' seen'] step show ?case by simp
qed

lemma fold_frameStepD_inclusive:
  "inclusiveOfD (fst (fold (frameStepD d sf ex st len sc) is (m, seen))) h =
   (if h \<in> frameGroupAt d sf ex st ` set is \<and> h \<notin> seen then jsAdd (inclusiveOfD m h) sc
    else inclusiveOfD m h)"
proof (induction "is" arbitrary: m seen)
  case Nil
  then show ?case by simp
next
  case (Cons i "is")
  obtain m' seen' where step: "frameStepD d sf ex st len sc i (m, seen) = (m', seen')"
    by (cases "frameStepD d sf ex st len sc i (m, seen)")
  from frameStepD_seen [of d sf ex st len sc i m seen] step
  have seen': "seen' = insert (frameGroupAt d sf ex st i) seen" by simp
  from frameStepD_inclusive [of d sf ex st len sc i m seen h] step
  have m': "inclusiveOfD m' h =
    (if h = frameGroupAt d sf ex st i \<and> h \<notin> seen then jsAdd (inclusiveOfD m h) sc
     else inclusiveOfD m h)" by simp
  show ?case
    using Cons.IH [of m' seen'] step seen' m' by auto
qed

lemma fold_frameStepD_exclusive:
  "exclusiveOfD (fst (fold (frameStepD d sf ex st len sc) is (m, seen))) h =
   fold (\<lambda>i a. if h = frameGroupAt d sf ex st i \<and> int i = int len - 1 then jsAdd a sc else a)
     is (exclusiveOfD m h)"
proof (induction "is" arbitrary: m seen)
  case Nil
  then show ?case by simp
next
  case (Cons i "is")
  obtain m' seen' where step: "frameStepD d sf ex st len sc i (m, seen) = (m', seen')"
    by (cases "frameStepD d sf ex st len sc i (m, seen)")
  from frameStepD_exclusive [of d sf ex st len sc i m seen h] step
  have m': "exclusiveOfD m' h =
    (if h = frameGroupAt d sf ex st i \<and> int i = int len - 1 then jsAdd (exclusiveOfD m h) sc
     else exclusiveOfD m h)" by simp
  show ?case
    using Cons.IH [of m' seen'] step m' by simp
qed

lemma fold_unchanged: "(\<And>x. x \<in> set xs \<Longrightarrow> f x a = a) \<Longrightarrow> fold f xs a = a"
  by (induction xs) simp_all

lemma leaf_fold:
  "fold (\<lambda>i a. if h = G i \<and> int i = int len - 1 then jsAdd a sc else a) [0..<len] a =
   (if 0 < len \<and> h = G (len - 1) then jsAdd a sc else a)"
proof (cases len)
  case 0
  then show ?thesis by simp
next
  case (Suc n)
  have "fold (\<lambda>i a. if h = G i \<and> int i = int (Suc n) - 1 then jsAdd a sc else a) [0..<n] a = a"
    by (rule fold_unchanged) auto
  then have "fold (\<lambda>i a. if h = G i \<and> int i = int (Suc n) - 1 then jsAdd a sc else a)
      ([0..<n] @ [n]) a = (if h = G n then jsAdd a sc else a)"
    by (simp only: fold_append comp_def fold_simps) simp
  with Suc show ?thesis by (simp only: upt_Suc_append [OF le0]) simp
qed

lemma eventStepD_total:
  "fst (eventStepD d (stackFramesD p) (executablesD p) (stackTracesD p)
          (jsDiv (Finite 1) (samplingRateD p)) ev (t, m)) = addTotal p ev t"
  by (cases ev) (simp add: eventStepD_def scaledD_def addTotal_def Let_def)

lemma eventStepD_keys:
  "fst ` set (snd (eventStepD d (stackFramesD p) (executablesD p) (stackTracesD p) f ev (t, m))) =
   fst ` set m \<union> set (groupsOfD d p (fst ev))"
  by (cases ev)
     (simp add: eventStepD_def Let_def fold_frameStepD_keys groupsOfD_def frameGroups_def)

lemma eventStepD_distinct:
  "distinct (map fst m) \<Longrightarrow>
   distinct (map fst (snd (eventStepD d sf ex sts f ev (t, m))))"
  by (cases ev) (simp add: eventStepD_def Let_def fold_frameStepD_distinct)

lemma eventStepD_inclusive:
  "inclusiveOfD (snd (eventStepD d (stackFramesD p) (executablesD p) (stackTracesD p)
      (jsDiv (Finite 1) (samplingRateD p)) ev (t, m))) h =
   addInclusive d p h ev (inclusiveOfD m h)"
  by (cases ev)
     (simp add: eventStepD_def Let_def fold_frameStepD_inclusive addInclusive_def groupsOfD_def
        frameGroups_def scaledD_def)

lemma eventStepD_exclusive:
  "exclusiveOfD (snd (eventStepD d (stackFramesD p) (executablesD p) (stackTracesD p)
      (jsDiv (Finite 1) (samplingRateD p)) ev (t, m))) h =
   addExclusive d p h ev (exclusiveOfD m h)"
  by (cases ev)
     (auto simp: eventStepD_def Let_def fold_frameStepD_exclusive leaf_fold addExclusive_def
        groupsOfD_def frameGroups_Nil last_frameGroups scaledD_def)

subsection \<open>All events, and the returned rows\<close>

lemma fold_eventStepD_total:
  "fst (fold (eventStepD d (stackFramesD p) (executablesD p) (stackTracesD p) (jsDiv (Finite 1) (samplingRateD p))) evs (t, m)) = fold (addTotal p) evs t"
proof (induction evs arbitrary: t m)
  case Nil
  then show ?case by simp
next
  case (Cons ev evs)
  obtain t' m' where st:
    "eventStepD d (stackFramesD p) (executablesD p) (stackTracesD p)
       (jsDiv (Finite 1) (samplingRateD p)) ev (t, m) = (t', m')"
    by (cases "eventStepD d (stackFramesD p) (executablesD p) (stackTracesD p)
       (jsDiv (Finite 1) (samplingRateD p)) ev (t, m)")
  have r: "t' = addTotal p ev t"
    using eventStepD_total [of d p ev t m] st by simp
  show ?case
    using Cons.IH [of t' m'] st r by simp
qed

lemma fold_eventStepD_keys:
  "fst ` set (snd (fold (eventStepD d (stackFramesD p) (executablesD p) (stackTracesD p) (jsDiv (Finite 1) (samplingRateD p))) evs (t, m))) = fst ` set m \<union> (\<Union>ev\<in>set evs. set (groupsOfD d p (fst ev)))"
proof (induction evs arbitrary: t m)
  case Nil
  then show ?case by simp
next
  case (Cons ev evs)
  obtain t' m' where st:
    "eventStepD d (stackFramesD p) (executablesD p) (stackTracesD p)
       (jsDiv (Finite 1) (samplingRateD p)) ev (t, m) = (t', m')"
    by (cases "eventStepD d (stackFramesD p) (executablesD p) (stackTracesD p)
       (jsDiv (Finite 1) (samplingRateD p)) ev (t, m)")
  have r: "fst ` set m' = fst ` set m \<union> set (groupsOfD d p (fst ev))"
    using eventStepD_keys [of d p "jsDiv (Finite 1) (samplingRateD p)" ev t m] st by simp
  show ?case
    using Cons.IH [of t' m'] st r by auto
qed

lemma fold_eventStepD_inclusive:
  "inclusiveOfD (snd (fold (eventStepD d (stackFramesD p) (executablesD p) (stackTracesD p) (jsDiv (Finite 1) (samplingRateD p))) evs (t, m))) h = fold (addInclusive d p h) evs (inclusiveOfD m h)"
proof (induction evs arbitrary: t m)
  case Nil
  then show ?case by simp
next
  case (Cons ev evs)
  obtain t' m' where st:
    "eventStepD d (stackFramesD p) (executablesD p) (stackTracesD p)
       (jsDiv (Finite 1) (samplingRateD p)) ev (t, m) = (t', m')"
    by (cases "eventStepD d (stackFramesD p) (executablesD p) (stackTracesD p)
       (jsDiv (Finite 1) (samplingRateD p)) ev (t, m)")
  have r: "inclusiveOfD m' h = addInclusive d p h ev (inclusiveOfD m h)"
    using eventStepD_inclusive [of d p ev t m h] st by simp
  show ?case
    using Cons.IH [of t' m'] st r by simp
qed

lemma fold_eventStepD_exclusive:
  "exclusiveOfD (snd (fold (eventStepD d (stackFramesD p) (executablesD p) (stackTracesD p) (jsDiv (Finite 1) (samplingRateD p))) evs (t, m))) h = fold (addExclusive d p h) evs (exclusiveOfD m h)"
proof (induction evs arbitrary: t m)
  case Nil
  then show ?case by simp
next
  case (Cons ev evs)
  obtain t' m' where st:
    "eventStepD d (stackFramesD p) (executablesD p) (stackTracesD p)
       (jsDiv (Finite 1) (samplingRateD p)) ev (t, m) = (t', m')"
    by (cases "eventStepD d (stackFramesD p) (executablesD p) (stackTracesD p)
       (jsDiv (Finite 1) (samplingRateD p)) ev (t, m)")
  have r: "exclusiveOfD m' h = addExclusive d p h ev (exclusiveOfD m h)"
    using eventStepD_exclusive [of d p ev t m h] st by simp
  show ?case
    using Cons.IH [of t' m'] st r by simp
qed
lemma fold_eventStepD_distinct:
  "distinct (map fst m) \<Longrightarrow>
   distinct (map fst (snd (fold (eventStepD d sf ex sts f) evs (t, m))))"
proof (induction evs arbitrary: t m)
  case Nil
  then show ?case by simp
next
  case (Cons ev evs)
  obtain t' m' where st: "eventStepD d sf ex sts f ev (t, m) = (t', m')"
    by (cases "eventStepD d sf ex sts f ev (t, m)")
  have "distinct (map fst m')"
    using eventStepD_distinct [OF Cons.prems, of d sf ex sts f ev t] st by simp
  then show ?case
    using Cons.IH [of m' t'] st by simp
qed

lemma accumulateD_total: "fst (accumulateD d p) = fold (addTotal p) (eventsD p) (Finite 0)"
  using fold_eventStepD_total [of d p "eventsD p" "Finite 0" "[]"] by (simp add: accumulateD_def)

lemma accumulateD_keys:
  "fst ` set (snd (accumulateD d p)) = (\<Union>ev\<in>set (eventsD p). set (groupsOfD d p (fst ev)))"
  using fold_eventStepD_keys [of d p "eventsD p" "Finite 0" "[]"] by (simp add: accumulateD_def)

lemma accumulateD_distinct: "distinct (map fst (snd (accumulateD d p)))"
  using fold_eventStepD_distinct [of "[]" d "stackFramesD p" "executablesD p" "stackTracesD p"
      "jsDiv (Finite 1) (samplingRateD p)" "eventsD p" "Finite 0"]
  by (simp add: accumulateD_def)

lemma accumulateD_inclusive:
  "inclusiveOfD (snd (accumulateD d p)) h = fold (addInclusive d p h) (eventsD p) (Finite 0)"
  using fold_eventStepD_inclusive [of d p "eventsD p" "Finite 0" "[]" h]
  by (simp add: accumulateD_def inclusiveOfD_def)

lemma accumulateD_exclusive:
  "exclusiveOfD (snd (accumulateD d p)) h = fold (addExclusive d p h) (eventsD p) (Finite 0)"
  using fold_eventStepD_exclusive [of d p "eventsD p" "Finite 0" "[]" h]
  by (simp add: accumulateD_def exclusiveOfD_def)

lemma accumulateD_entry_inclusive:
  "map_of (snd (accumulateD d p)) g = Some e \<Longrightarrow>
   CountInclusiveD e = fold (addInclusive d p g) (eventsD p) (Finite 0)"
  using accumulateD_inclusive [of d p g] by (simp add: inclusiveOfD_def)

lemma accumulateD_entry_exclusive:
  "map_of (snd (accumulateD d p)) g = Some e \<Longrightarrow>
   CountExclusiveD e = fold (addExclusive d p g) (eventsD p) (Finite 0)"
  using accumulateD_exclusive [of d p g] by (simp add: exclusiveOfD_def)

lemma TotalCountD_createTopNFunctionsD:
  "TotalCountD (createTopNFunctionsD d calc p) = fst (accumulateD d p)"
  by (cases "accumulateD d p") (simp add: createTopNFunctionsD_def Let_def)

lemma TopND_createTopNFunctionsD:
  "TopND (createTopNFunctionsD d calc p) =
    map (makeRowD calc (fst (accumulateD d p)) (totalSecondsD p))
      (enumerate 0
        (slice (rankTopND (localeCompare d) (snd (accumulateD d p)))
           (clampIndex (startIndexD p) (length (rankTopND (localeCompare d) (snd (accumulateD d p)))))
           (clampIndex (endIndexD p) (length (rankTopND (localeCompare d) (snd (accumulateD d p)))))))"
  by (cases "accumulateD d p") (simp add: createTopNFunctionsD_def Let_def)

lemma set_rankTopND: "set (rankTopND lc m) = snd ` set m"
  by (simp add: rankTopND_def set_sortBy)

lemma makeRowD_counts:
  "RowCountExclusiveD (makeRowD calc t s (i, e)) = CountExclusiveD e"
  "RowCountInclusiveD (makeRowD calc t s (i, e)) = CountInclusiveD e"
  by (simp_all add: makeRowD_def Let_def)

lemma rowD_from_entry:
  assumes "row \<in> set (TopND (createTopNFunctionsD d calc p))"
  shows "\<exists>i e. e \<in> snd ` set (snd (accumulateD d p)) \<and>
           row = makeRowD calc (fst (accumulateD d p)) (totalSecondsD p) (i, e)"
proof -
  define topN where "topN = rankTopND (localeCompare d) (snd (accumulateD d p))"
  define sl where "sl = slice topN (clampIndex (startIndexD p) (length topN))
                          (clampIndex (endIndexD p) (length topN))"
  have "TopND (createTopNFunctionsD d calc p) =
        map (makeRowD calc (fst (accumulateD d p)) (totalSecondsD p)) (enumerate 0 sl)"
    by (simp only: TopND_createTopNFunctionsD sl_def topN_def)
  with assms have "row \<in> makeRowD calc (fst (accumulateD d p)) (totalSecondsD p) ` set (enumerate 0 sl)"
    by simp
  then obtain ix where ix: "ix \<in> set (enumerate 0 sl)"
    and row: "row = makeRowD calc (fst (accumulateD d p)) (totalSecondsD p) ix"
    by (rule imageE)
  obtain i e where ie: "ix = (i, e)" by (cases ix)
  from ix ie have "e \<in> set sl" by (simp add: in_set_enumerateD)
  then have "e \<in> set topN"
    using set_slice [of topN] unfolding sl_def by (rule subsetD [rotated])
  then have "e \<in> snd ` set (snd (accumulateD d p))"
    by (simp only: topN_def set_rankTopND)
  with row ie show ?thesis by (intro exI conjI) simp_all
qed

text \<open>The three running sums stay in order.\<close>

lemma folds_ordered:
  assumes sc: "\<And>ev. ev \<in> set evs \<Longrightarrow> stored (scaledD p (snd ev))"
    and st: "stored ce" "stored ci" "stored t"
    and le: "jsLe ce ci" "jsLe ci t"
  shows "stored (fold (addExclusive d p g) evs ce) \<and>
         stored (fold (addInclusive d p g) evs ci) \<and>
         stored (fold (addTotal p) evs t) \<and>
         jsLe (fold (addExclusive d p g) evs ce) (fold (addInclusive d p g) evs ci) \<and>
         jsLe (fold (addInclusive d p g) evs ci) (fold (addTotal p) evs t)"
  using assms
proof (induction evs arbitrary: ce ci t)
  case Nil
  then show ?case by simp
next
  case (Cons ev evs)
  let ?s = "scaledD p (snd ev)"
  have s: "stored ?s" using Cons.prems(1) by simp
  have leaf: "g \<in> set (groupsOfD d p (fst ev))"
    if "groupsOfD d p (fst ev) \<noteq> [] \<and> last (groupsOfD d p (fst ev)) = g"
    using that last_in_set by blast
  have t': "stored (addTotal p ev t)"
    unfolding addTotal_def using Cons.prems(4) s by (rule stored_jsAdd)
  have ci': "stored (addInclusive d p g ev ci)"
    unfolding addInclusive_def using Cons.prems(3) s by (simp add: stored_jsAdd)
  have ce': "stored (addExclusive d p g ev ce)"
    unfolding addExclusive_def using Cons.prems(2) s by (simp add: stored_jsAdd)
  have l1: "jsLe (addExclusive d p g ev ce) (addInclusive d p g ev ci)"
  proof (cases "groupsOfD d p (fst ev) \<noteq> [] \<and> last (groupsOfD d p (fst ev)) = g")
    case True
    with leaf [OF True] show ?thesis
      unfolding addExclusive_def addInclusive_def
      using jsAdd_mono [OF Cons.prems(2,3) s Cons.prems(5)] by simp
  next
    case False
    then have e: "addExclusive d p g ev ce = ce" unfolding addExclusive_def by (rule if_not_P)
    show ?thesis
    proof (cases "g \<in> set (groupsOfD d p (fst ev))")
      case True
      then have "addInclusive d p g ev ci = jsAdd ci ?s" by (simp add: addInclusive_def)
      with jsLe_trans [OF Cons.prems(5) jsAdd_increasing [OF Cons.prems(3) s]] e
      show ?thesis by simp
    next
      case False
      with e Cons.prems(5) show ?thesis by (simp add: addInclusive_def)
    qed
  qed
  have l2: "jsLe (addInclusive d p g ev ci) (addTotal p ev t)"
  proof (cases "g \<in> set (groupsOfD d p (fst ev))")
    case True
    then show ?thesis
      unfolding addInclusive_def addTotal_def
      using jsAdd_mono [OF Cons.prems(3,4) s Cons.prems(6)] by simp
  next
    case False
    then have "addInclusive d p g ev ci = ci" by (simp add: addInclusive_def)
    with jsLe_trans [OF Cons.prems(6) jsAdd_increasing [OF Cons.prems(4) s]]
    show ?thesis by (simp add: addTotal_def)
  qed
  have "\<And>ev. ev \<in> set evs \<Longrightarrow> stored (scaledD p (snd ev))"
    using Cons.prems(1) by simp
  from Cons.IH [OF this ce' ci' t' l1 l2] show ?case by simp
qed

lemma fold_addTotal_unfold:
  "fold (addTotal p) evs a =
   fold (\<lambda>ev t. jsAdd t (jsMul (snd ev) (jsDiv (Finite 1) (samplingRateD p)))) evs a"
  unfolding addTotal_def [abs_def] scaledD_def by (rule refl)

lemma fold_addInclusive_unfold:
  "fold (addInclusive d p g) evs a =
   fold (\<lambda>ev c. if g \<in> set (groupsOfD d p (fst ev))
                 then jsAdd c (jsMul (snd ev) (jsDiv (Finite 1) (samplingRateD p))) else c) evs a"
  unfolding addInclusive_def [abs_def] scaledD_def by (rule refl)

lemma fold_addExclusive_unfold:
  "fold (addExclusive d p g) evs a =
   fold (\<lambda>ev c. if groupsOfD d p (fst ev) \<noteq> [] \<and> last (groupsOfD d p (fst ev)) = g
                 then jsAdd c (jsMul (snd ev) (jsDiv (Finite 1) (samplingRateD p))) else c) evs a"
  unfolding addExclusive_def [abs_def] scaledD_def by (rule refl)

lemma lookupD_in_groups:
  assumes "map_of (snd (accumulateD d p)) g = Some e" "eventsD p = [(T, c)]"
  shows "g \<in> set (groupsOfD d p T)"
proof -
  from assms(1) have "g \<in> fst ` set (snd (accumulateD d p))"
    by (auto dest!: map_of_SomeD intro: rev_image_eqI)
  then show ?thesis by (simp add: accumulateD_keys assms(2))
qed

lemma entry_bounds:
  assumes rate: "jsLt (Finite 0) (samplingRateD p)"
    and nonneg: "\<forall>ev\<in>set (eventsD p). jsLe (Finite 0) (snd ev)"
    and nonan: "\<forall>ev\<in>set (eventsD p). jsMul (snd ev) (jsDiv (Finite 1) (samplingRateD p)) \<noteq> NaN"
    and e: "(g, e) \<in> set (snd (accumulateD d p))"
  shows "jsLe (Finite 0) (CountExclusiveD e) \<and> jsLe (CountExclusiveD e) (CountInclusiveD e) \<and>
         jsLe (CountInclusiveD e) (fst (accumulateD d p))"
proof -
  have sc: "stored (scaledD p (snd ev))" if "ev \<in> set (eventsD p)" for ev
    unfolding scaledD_def using that nonneg nonan rate by (intro stored_scaled) auto
  have look: "map_of (snd (accumulateD d p)) g = Some e"
    using accumulateD_distinct e by (rule map_of_is_SomeI)
  have z: "jsLe (Finite 0) (Finite 0)" by simp
  from folds_ordered [of "eventsD p" p "Finite 0" "Finite 0" "Finite 0" d g, OF sc]
  have "stored (fold (addExclusive d p g) (eventsD p) (Finite 0)) \<and>
         jsLe (fold (addExclusive d p g) (eventsD p) (Finite 0))
           (fold (addInclusive d p g) (eventsD p) (Finite 0)) \<and>
         jsLe (fold (addInclusive d p g) (eventsD p) (Finite 0))
           (fold (addTotal p) (eventsD p) (Finite 0))"
    by simp
  then show ?thesis
    by (simp add: accumulateD_entry_inclusive [OF look] accumulateD_entry_exclusive [OF look]
          accumulateD_total jsLe_zero_stored)
qed

subsection \<open>Evaluating the concrete input in doubles\<close>

lemmas evalD_defs = accumulateD_def eventStepD_def frameStepD_def modify_def exampleParamsD_def
  example_defs Let_def

subsection \<open>The ranking of double counts\<close>

lemma sorted_insertBy_on:
  assumes tr: "\<And>a b c. a \<in> A \<Longrightarrow> b \<in> A \<Longrightarrow> c \<in> A \<Longrightarrow>
                 cmp a b \<le> 0 \<Longrightarrow> cmp b c \<le> 0 \<Longrightarrow> cmp a c \<le> (0::int)"
    and tot: "\<And>a b. a \<in> A \<Longrightarrow> b \<in> A \<Longrightarrow> 0 < cmp a b \<Longrightarrow> cmp b a \<le> 0"
  shows "x \<in> A \<Longrightarrow> set xs \<subseteq> A \<Longrightarrow> sorted_wrt (\<lambda>a b. cmp a b \<le> 0) xs \<Longrightarrow>
         sorted_wrt (\<lambda>a b. cmp a b \<le> 0) (insertBy cmp x xs)"
proof (induction xs)
  case Nil
  then show ?case by simp
next
  case (Cons y ys)
  show ?case
  proof (cases "cmp x y \<le> 0")
    case True
    have "cmp x z \<le> 0" if "z \<in> set ys" for z
    proof -
      from Cons.prems(3) that have "cmp y z \<le> 0" by simp
      with True show ?thesis
        using Cons.prems(1,2) that by (intro tr [of x y z]) auto
    qed
    with True Cons.prems show ?thesis by simp
  next
    case False
    then have "cmp y x \<le> 0" using Cons.prems(1,2) by (intro tot) auto
    with False Cons show ?thesis by (auto simp: set_insertBy)
  qed
qed

lemma sorted_sortBy_on:
  assumes tr: "\<And>a b c. a \<in> A \<Longrightarrow> b \<in> A \<Longrightarrow> c \<in> A \<Longrightarrow>
                 cmp a b \<le> 0 \<Longrightarrow> cmp b c \<le> 0 \<Longrightarrow> cmp a c \<le> (0::int)"
    and tot: "\<And>a b. a \<in> A \<Longrightarrow> b \<in> A \<Longrightarrow> 0 < cmp a b \<Longrightarrow> cmp b a \<le> 0"
  shows "set xs \<subseteq> A \<Longrightarrow> sorted_wrt (\<lambda>a b. cmp a b \<le> 0) (sortBy cmp xs)"
proof (induction xs)
  case Nil
  then show ?case by simp
next
  case (Cons x xs)
  have "sorted_wrt (\<lambda>a b. cmp a b \<le> 0) (insertBy cmp x (sortBy cmp xs))"
  proof (rule sorted_insertBy_on [where A = A])
    show "x \<in> A" using Cons.prems by simp
    show "set (sortBy cmp xs) \<subseteq> A" using Cons.prems by (simp add: set_sortBy)
    show "sorted_wrt (\<lambda>a b. cmp a b \<le> 0) (sortBy cmp xs)" using Cons by simp
  qed (erule (4) tr, erule (2) tot)
  then show ?case by simp
qed

lemma jsLt_trans: "jsLt a b \<Longrightarrow> jsLt b c \<Longrightarrow> jsLt a c"
  by (cases a; cases b; cases c) simp_all

lemma jsLt_asym: "jsLt a b \<Longrightarrow> \<not> jsLt b a"
  by (cases a; cases b) simp_all

lemma jsLt_total: "a \<noteq> NaN \<Longrightarrow> b \<noteq> NaN \<Longrightarrow> jsLt a b \<or> a = b \<or> jsLt b a"
  by (cases a; cases b) auto

lemma compareTopND_le:
  assumes "CountExclusiveD a \<noteq> NaN" "CountExclusiveD b \<noteq> NaN"
  shows "compareTopND lc a b \<le> 0 \<longleftrightarrow>
   jsLt (CountExclusiveD a) (CountExclusiveD b) \<or>
   (CountExclusiveD a = CountExclusiveD b \<and> lc (FrameGroupIDD a) (FrameGroupIDD b) \<le> 0)"
  using jsLt_total [OF assms] jsLt_asym [of "CountExclusiveD a" "CountExclusiveD b"]
    jsLt_asym [of "CountExclusiveD a" "CountExclusiveD a"]
  by (auto simp: compareTopND_def jsGt_def)

lemma compareDescendingD_eq: "compareDescendingD lc a b = compareTopND lc b a"
  by (auto simp: compareTopND_def compareDescendingD_def jsGt_def dest: jsLt_asym)

lemma compareTopND_trans:
  assumes "consistentCompare lc"
    and "CountExclusiveD a \<noteq> NaN" "CountExclusiveD b \<noteq> NaN" "CountExclusiveD c \<noteq> NaN"
    and "compareTopND lc a b \<le> 0" "compareTopND lc b c \<le> 0"
  shows "compareTopND lc a c \<le> 0"
  using assms(5,6)
    consistentCompareD(2) [OF assms(1), of "FrameGroupIDD a" "FrameGroupIDD b" "FrameGroupIDD c"]
    jsLt_trans [of "CountExclusiveD a" "CountExclusiveD b" "CountExclusiveD c"]
  by (auto simp: compareTopND_le assms(2-4))

lemma compareTopND_total:
  assumes "consistentCompare lc" "0 < compareTopND lc a b"
  shows "compareTopND lc b a \<le> 0"
proof -
  have "lc (FrameGroupIDD b) (FrameGroupIDD a) < 0 \<longleftrightarrow> 0 < lc (FrameGroupIDD a) (FrameGroupIDD b)"
    by (rule consistentCompareD(1) [OF assms(1)])
  with assms(2) show ?thesis
    using jsLt_asym [of "CountExclusiveD a" "CountExclusiveD b"]
    by (auto simp: compareTopND_def jsGt_def split: if_splits)
qed

lemma compareTopND_equiv:
  assumes "consistentCompare lc" "CountExclusiveD a \<noteq> NaN" "CountExclusiveD b \<noteq> NaN"
    and "compareTopND lc a b \<le> 0" "compareTopND lc b a \<le> 0"
  shows "lc (FrameGroupIDD a) (FrameGroupIDD b) = 0"
proof -
  have sw: "lc (FrameGroupIDD a) (FrameGroupIDD b) < 0 \<longleftrightarrow> 0 < lc (FrameGroupIDD b) (FrameGroupIDD a)"
    by (rule consistentCompareD(1) [OF assms(1)])
  from assms(4,5) have "lc (FrameGroupIDD a) (FrameGroupIDD b) \<le> 0"
    and "lc (FrameGroupIDD b) (FrameGroupIDD a) \<le> 0"
    using jsLt_asym [of "CountExclusiveD a" "CountExclusiveD b"]
      jsLt_asym [of "CountExclusiveD a" "CountExclusiveD a"]
    by (auto simp: compareTopND_le assms(2,3))
  with sw show ?thesis by linarith
qed

lemma nonEquivalent_elements:
  assumes ne: "pairwiseNonEquivalent lc (map f xs)"
    and ab: "a \<in> set xs" "b \<in> set xs"
    and z: "lc (f a) (f b) = 0"
  shows "a = b"
proof -
  from ab obtain i j where i: "i < length xs" "xs ! i = a" and j: "j < length xs" "xs ! j = b"
    by (auto simp: in_set_conv_nth)
  have "i = j"
  proof (rule ccontr)
    assume "i \<noteq> j"
    with ne i(1) j(1) have "lc (map f xs ! i) (map f xs ! j) \<noteq> 0"
      unfolding pairwiseNonEquivalent_def by simp
    with i j z show False by simp
  qed
  with i j show ?thesis by simp
qed

lemma rev_sort_eq_sort_descendingD:
  assumes lc: "consistentCompare lc" and ne: "pairwiseNonEquivalent lc (map FrameGroupIDD xs)"
    and nn: "NaN \<notin> set (map CountExclusiveD xs)"
  shows "rev (sortBy (compareTopND lc) xs) = sortBy (compareDescendingD lc) xs"
proof (rule sorted_wrt_unique [where R = "\<lambda>a b. compareTopND lc b a \<le> 0"])
  define A where "A = {e :: 'a TopNFunctionAndFrameGroupD. CountExclusiveD e \<noteq> NaN}"
  have sub: "set xs \<subseteq> A"
  proof
    fix x assume "x \<in> set xs"
    then have "CountExclusiveD x \<in> set (map CountExclusiveD xs)" by simp
    with nn have "CountExclusiveD x \<noteq> NaN" by metis
    then show "x \<in> A" by (simp add: A_def)
  qed
  have "sorted_wrt (\<lambda>a b. compareTopND lc a b \<le> 0) (sortBy (compareTopND lc) xs)"
  proof (rule sorted_sortBy_on [where A = A, OF _ _ sub])
    fix a b c :: "'a TopNFunctionAndFrameGroupD"
    assume "a \<in> A" "b \<in> A" "c \<in> A" "compareTopND lc a b \<le> 0" "compareTopND lc b c \<le> 0"
    then show "compareTopND lc a c \<le> 0"
      using compareTopND_trans [OF lc, of a b c] by (simp add: A_def)
  next
    fix a b :: "'a TopNFunctionAndFrameGroupD"
    assume "0 < compareTopND lc a b"
    then show "compareTopND lc b a \<le> 0" by (rule compareTopND_total [OF lc])
  qed
  then show "sorted_wrt (\<lambda>a b. compareTopND lc b a \<le> 0) (rev (sortBy (compareTopND lc) xs))"
    by (simp add: sorted_wrt_rev)
  have "sorted_wrt (\<lambda>a b. compareDescendingD lc a b \<le> 0) (sortBy (compareDescendingD lc) xs)"
  proof (rule sorted_sortBy_on [where A = A, OF _ _ sub])
    fix a b c :: "'a TopNFunctionAndFrameGroupD"
    assume "a \<in> A" "b \<in> A" "c \<in> A"
      "compareDescendingD lc a b \<le> 0" "compareDescendingD lc b c \<le> 0"
    then show "compareDescendingD lc a c \<le> 0"
      using compareTopND_trans [OF lc, of c b a] by (simp add: A_def compareDescendingD_eq)
  next
    fix a b :: "'a TopNFunctionAndFrameGroupD"
    assume "0 < compareDescendingD lc a b"
    then show "compareDescendingD lc b a \<le> 0"
      using compareTopND_total [OF lc, of b a] by (simp add: compareDescendingD_eq)
  qed
  then show "sorted_wrt (\<lambda>a b. compareTopND lc b a \<le> 0) (sortBy (compareDescendingD lc) xs)"
    by (simp add: compareDescendingD_eq)
  show "mset (rev (sortBy (compareTopND lc) xs)) = mset (sortBy (compareDescendingD lc) xs)"
    by (simp add: mset_sortBy)
next
  fix a b
  assume "a \<in> set (rev (sortBy (compareTopND lc) xs))" "b \<in> set (rev (sortBy (compareTopND lc) xs))"
  then have ab: "a \<in> set xs" "b \<in> set xs" by (simp_all add: set_sortBy)
  then have "CountExclusiveD a \<in> set (map CountExclusiveD xs)"
    "CountExclusiveD b \<in> set (map CountExclusiveD xs)" by simp_all
  with nn have n: "CountExclusiveD a \<noteq> NaN" "CountExclusiveD b \<noteq> NaN" by metis+
  assume "compareTopND lc b a \<le> 0" "compareTopND lc a b \<le> 0"
  then have "lc (FrameGroupIDD a) (FrameGroupIDD b) = 0"
    using compareTopND_equiv [OF lc n] by simp
  with ne ab show "a = b" by (rule nonEquivalent_elements)
qed

text \<open>
  With an exclusive count that is \<open>NaN\<close> the comparison function of lines 149-157 is not
  consistent: here \<open>a\<close> goes before \<open>b\<close>, \<open>b\<close> before \<open>c\<close>, and \<open>c\<close> before \<open>a\<close>. The order
  in which \<open>Array.prototype.sort\<close> leaves an array is then implementation-defined.
\<close>

lemma compareTopND_cycle:
  "compareTopND lexicographicCompare
     \<lparr>FrameD = (), FrameGroupIDD = ''a'', CountExclusiveD = PosInf, CountInclusiveD = PosInf\<rparr>
     \<lparr>FrameD = (), FrameGroupIDD = ''b'', CountExclusiveD = NaN, CountInclusiveD = NaN\<rparr> < 0 \<and>
   compareTopND lexicographicCompare
     \<lparr>FrameD = (), FrameGroupIDD = ''b'', CountExclusiveD = NaN, CountInclusiveD = NaN\<rparr>
     \<lparr>FrameD = (), FrameGroupIDD = ''c'', CountExclusiveD = Finite 0, CountInclusiveD = PosInf\<rparr> < 0 \<and>
   compareTopND lexicographicCompare
     \<lparr>FrameD = (), FrameGroupIDD = ''c'', CountExclusiveD = Finite 0, CountInclusiveD = PosInf\<rparr>
     \<lparr>FrameD = (), FrameGroupIDD = ''a'', CountExclusiveD = PosInf, CountInclusiveD = PosInf\<rparr> < 0"
  by (simp add: compareTopND_def jsGt_def lexicographicCompare_def)

lemma exampleD_accumulate:
  "snd (accumulateD exampleDeps exampleParamsD) =
    [(''A'', \<lparr>FrameD = ''A'', FrameGroupIDD = ''A'', CountExclusiveD = Finite 0,
             CountInclusiveD = Finite 6\<rparr>),
     (''B'', \<lparr>FrameD = ''B'', FrameGroupIDD = ''B'', CountExclusiveD = Finite 0,
             CountInclusiveD = Finite 6\<rparr>),
     (''C'', \<lparr>FrameD = ''C'', FrameGroupIDD = ''C'', CountExclusiveD = Finite 6,
             CountInclusiveD = Finite 6\<rparr>)]"
  by (simp add: evalD_defs upt_rec round_facts)

section \<open>The claims\<close>

text \<open>
  Claim C1. For every frame group that has an entry in the map after the loop,
  \<open>CountExclusive\<close> is the sum over the events of the event's scaled count where the frame
  group is the one at the last position of the event's stack trace, and of zero elsewhere:
  an exclusive count grows at the leaf position only. In particular, with the single event
  \<open>(T1, 10)\<close>, a sampling rate of 1 and pairwise distinct frame groups \<open>A\<close>, \<open>B\<close>, \<open>C\<close>
  at the three positions of \<open>T1\<close>, the map holds exactly \<open>A\<close>, \<open>B\<close> and \<open>C\<close>, each with
  \<open>CountInclusive = 10\<close>, with \<open>CountExclusive = 10\<close> for \<open>C\<close> and \<open>0\<close> for \<open>A\<close> and
  \<open>B\<close>, and the report has \<open>TotalCount = 10\<close>.
\<close>

theorem exclusive_count_only_at_leaf:
  "(\<forall>g e. map_of (snd (accumulate d p)) g = Some e \<longrightarrow>
      CountExclusive e =
        (\<Sum>ev\<leftarrow>events p. if groupsOf d p (fst ev) \<noteq> [] \<and> last (groupsOf d p (fst ev)) = g
                          then snd ev * (1 / samplingRate p) else 0)) \<and>
   (events p = [(T1, 10)] \<and> samplingRate p = 1 \<and> groupsOf d p T1 = [A, B, C] \<and>
    A \<noteq> B \<and> A \<noteq> C \<and> B \<noteq> C \<longrightarrow>
      fst ` set (snd (accumulate d p)) = {A, B, C} \<and>
      (\<exists>a b c. map_of (snd (accumulate d p)) A = Some a \<and>
               map_of (snd (accumulate d p)) B = Some b \<and>
               map_of (snd (accumulate d p)) C = Some c \<and>
               CountInclusive a = 10 \<and> CountInclusive b = 10 \<and> CountInclusive c = 10 \<and>
               CountExclusive a = 0 \<and> CountExclusive b = 0 \<and> CountExclusive c = 10) \<and>
      TotalCount (createTopNFunctions d p) = 10)"
proof (intro conjI allI impI)
  fix g e
  assume "map_of (snd (accumulate d p)) g = Some e"
  then show "CountExclusive e =
        (\<Sum>ev\<leftarrow>events p. if groupsOf d p (fst ev) \<noteq> [] \<and> last (groupsOf d p (fst ev)) = g
                          then snd ev * (1 / samplingRate p) else 0)"
    by (simp only: accumulate_entry_exclusive exclusive_sum_unfold)
next
  assume h: "events p = [(T1, 10)] \<and> samplingRate p = 1 \<and> groupsOf d p T1 = [A, B, C] \<and>
    A \<noteq> B \<and> A \<noteq> C \<and> B \<noteq> C"
  then have ev: "events p = [(T1, 10)]" and gs: "groupsOf d p T1 = [A, B, C]"
    and rate: "samplingRate p = 1" and ne: "A \<noteq> B" "A \<noteq> C" "B \<noteq> C"
    by simp_all
  show "fst ` set (snd (accumulate d p)) = {A, B, C}"
    by (simp add: accumulate_keys ev gs)
  show "TotalCount (createTopNFunctions d p) = 10"
    by (simp add: TotalCount_createTopNFunctions accumulate_total ev scaled_def rate)
  from single_event_lookup [OF ev, of A d] gs rate ne
  obtain a where a: "map_of (snd (accumulate d p)) A = Some a" "CountInclusive a = 10"
    "CountExclusive a = 0" by auto
  from single_event_lookup [OF ev, of B d] gs rate ne
  obtain b where b: "map_of (snd (accumulate d p)) B = Some b" "CountInclusive b = 10"
    "CountExclusive b = 0" by auto
  from single_event_lookup [OF ev, of C d] gs rate ne
  obtain c where c: "map_of (snd (accumulate d p)) C = Some c" "CountInclusive c = 10"
    "CountExclusive c = 10" by auto
  from a b c show "\<exists>a b c. map_of (snd (accumulate d p)) A = Some a \<and>
               map_of (snd (accumulate d p)) B = Some b \<and>
               map_of (snd (accumulate d p)) C = Some c \<and>
               CountInclusive a = 10 \<and> CountInclusive b = 10 \<and> CountInclusive c = 10 \<and>
               CountExclusive a = 0 \<and> CountExclusive b = 0 \<and> CountExclusive c = 10"
    by blast
qed

theorem exclusive_count_only_at_leaf_witness:
  "events exampleParams = [(''T1'', 10)] \<and> samplingRate exampleParams = 1 \<and>
   groupsOf exampleDeps exampleParams ''T1'' = [''A'', ''B'', ''C''] \<and>
   ''A'' \<noteq> ''B'' \<and> ''A'' \<noteq> ''C'' \<and> ''B'' \<noteq> ''C'' \<and>
   fst ` set (snd (accumulate exampleDeps exampleParams)) = {''A'', ''B'', ''C''} \<and>
   (\<exists>a b c. map_of (snd (accumulate exampleDeps exampleParams)) ''A'' = Some a \<and>
            map_of (snd (accumulate exampleDeps exampleParams)) ''B'' = Some b \<and>
            map_of (snd (accumulate exampleDeps exampleParams)) ''C'' = Some c \<and>
            CountInclusive a = 10 \<and> CountInclusive b = 10 \<and> CountInclusive c = 10 \<and>
            CountExclusive a = 0 \<and> CountExclusive b = 0 \<and> CountExclusive c = 10) \<and>
   TotalCount (createTopNFunctions exampleDeps exampleParams) = 10"
proof -
  have h: "events exampleParams = [(''T1'', 10)] \<and> samplingRate exampleParams = 1 \<and>
   groupsOf exampleDeps exampleParams ''T1'' = [''A'', ''B'', ''C''] \<and>
   ''A'' \<noteq> ''B'' \<and> ''A'' \<noteq> ''C'' \<and> ''B'' \<noteq> ''C''"
    by (simp add: example_defs upt_rec)
  from exclusive_count_only_at_leaf [of exampleDeps exampleParams "''T1''" "''A''" "''B''" "''C''"] h
  show ?thesis by blast
qed

text \<open>
  Claim C2. For every frame group that has an entry in the map after the loop,
  \<open>CountInclusive\<close> is the sum over the events of the event's scaled count where the frame
  group occurs in the event's stack trace, and of zero elsewhere: an event adds its scaled
  count once, however many positions of the stack trace belong to the frame group. In
  particular, with the single event \<open>(T1, 5)\<close>, a sampling rate of 1 and the frame groups
  \<open>A\<close>, \<open>A\<close>, \<open>B\<close> at the three positions of \<open>T1\<close>, the entry of \<open>A\<close> has
  \<open>CountInclusive = 5\<close>.
\<close>

theorem inclusive_count_once_per_event:
  "(\<forall>g e. map_of (snd (accumulate d p)) g = Some e \<longrightarrow>
      CountInclusive e =
        (\<Sum>ev\<leftarrow>events p. if g \<in> set (groupsOf d p (fst ev))
                          then snd ev * (1 / samplingRate p) else 0)) \<and>
   (events p = [(T1, 5)] \<and> samplingRate p = 1 \<and> groupsOf d p T1 = [A, A, B] \<longrightarrow>
      (\<exists>a. map_of (snd (accumulate d p)) A = Some a \<and> CountInclusive a = 5))"
proof (intro conjI allI impI)
  fix g e
  assume "map_of (snd (accumulate d p)) g = Some e"
  then show "CountInclusive e =
        (\<Sum>ev\<leftarrow>events p. if g \<in> set (groupsOf d p (fst ev))
                          then snd ev * (1 / samplingRate p) else 0)"
    by (simp only: accumulate_entry_inclusive inclusive_sum_unfold)
next
  assume "events p = [(T1, 5)] \<and> samplingRate p = 1 \<and> groupsOf d p T1 = [A, A, B]"
  then have ev: "events p = [(T1, 5)]" and gs: "groupsOf d p T1 = [A, A, B]"
    and rate: "samplingRate p = 1"
    by simp_all
  from single_event_lookup [OF ev, of A d] gs rate
  show "\<exists>a. map_of (snd (accumulate d p)) A = Some a \<and> CountInclusive a = 5"
    by auto
qed

theorem inclusive_count_once_per_event_witness:
  "events (exampleParams\<lparr>events := [(''T2'', 5)]\<rparr>) = [(''T2'', 5)] \<and>
   samplingRate (exampleParams\<lparr>events := [(''T2'', 5)]\<rparr>) = 1 \<and>
   groupsOf exampleDeps (exampleParams\<lparr>events := [(''T2'', 5)]\<rparr>) ''T2'' = [''A'', ''A'', ''B''] \<and>
   (\<exists>a. map_of (snd (accumulate exampleDeps (exampleParams\<lparr>events := [(''T2'', 5)]\<rparr>))) ''A'' = Some a \<and>
        CountInclusive a = 5)"
proof -
  have h: "events (exampleParams\<lparr>events := [(''T2'', 5)]\<rparr>) = [(''T2'', 5)] \<and>
   samplingRate (exampleParams\<lparr>events := [(''T2'', 5)]\<rparr>) = 1 \<and>
   groupsOf exampleDeps (exampleParams\<lparr>events := [(''T2'', 5)]\<rparr>) ''T2'' = [''A'', ''A'', ''B'']"
    by (simp add: example_defs upt_rec)
  from inclusive_count_once_per_event
    [of exampleDeps "exampleParams\<lparr>events := [(''T2'', 5)]\<rparr>" "''T2''" "''A''" "''B''"] h
  show ?thesis by blast
qed

text \<open>
  Claim C3, the part that \<open>TotalCount\<close> equals the sum over the events of the raw count
  divided by the sampling rate, does not hold in doubles. Line 84 multiplies the count by
  the rounded quotient \<open>1.0 / samplingRate\<close> of line 79. With the single event \<open>(T1, 49)\<close>
  and the sampling rate \<open>49 / 64 = 0.765625\<close>, both of them doubles, the quotient
  \<open>1.0 / samplingRate\<close> rounds to \<open>5882252574524729 / 2 ^ 52\<close> and its product with 49
  rounds to \<open>64 - 2 ^ - 47\<close>: this is \<open>TotalCount\<close>, whereas \<open>49 / 0.765625\<close> is 64, in
  doubles as in exact arithmetic.
\<close>

theorem total_count_is_not_sum_of_quotients_counterexample:
  "roundDouble 49 = Finite 49 \<and> roundDouble (49 / 64) = Finite (49 / 64) \<and>
   jsLt (Finite 0)
     (samplingRateD (exampleParamsD\<lparr>eventsD := [(''T1'', Finite 49)],
                                    samplingRateD := Finite (49 / 64)\<rparr>)) \<and>
   TotalCountD (createTopNFunctionsD exampleDeps exampleCalcD
     (exampleParamsD\<lparr>eventsD := [(''T1'', Finite 49)], samplingRateD := Finite (49 / 64)\<rparr>)) =
     Finite (64 - 1 / 2 ^ 47) \<and>
   fold (\<lambda>ev t. jsAdd t (jsDiv (snd ev) (Finite (49 / 64)))) [(''T1'', Finite 49)] (Finite 0) =
     Finite 64 \<and>
   (49 :: rat) / (49 / 64) = 64 \<and>
   TotalCountD (createTopNFunctionsD exampleDeps exampleCalcD
     (exampleParamsD\<lparr>eventsD := [(''T1'', Finite 49)], samplingRateD := Finite (49 / 64)\<rparr>)) \<noteq>
   fold (\<lambda>ev t. jsAdd t (jsDiv (snd ev) (Finite (49 / 64)))) [(''T1'', Finite 49)] (Finite 0)"
proof -
  let ?p = "exampleParamsD\<lparr>eventsD := [(''T1'', Finite 49)], samplingRateD := Finite (49 / 64)\<rparr>"
  have t: "TotalCountD (createTopNFunctionsD exampleDeps exampleCalcD ?p) = Finite (64 - 1 / 2 ^ 47)"
    by (simp add: TotalCountD_createTopNFunctionsD accumulateD_total addTotal_def scaledD_def
          exampleParamsD_def round_facts)
  have q: "fold (\<lambda>ev t. jsAdd t (jsDiv (snd ev) (Finite (49 / 64)))) [(''T1'', Finite 49)] (Finite 0) =
     Finite 64"
    by (simp add: round_facts)
  have r: "jsLt (Finite 0) (samplingRateD ?p)"
    by (simp add: exampleParamsD_def)
  have ne: "TotalCountD (createTopNFunctionsD exampleDeps exampleCalcD ?p) \<noteq>
    fold (\<lambda>ev t. jsAdd t (jsDiv (snd ev) (Finite (49 / 64)))) [(''T1'', Finite 49)] (Finite 0)"
    unfolding t q by simp
  have x: "(49 :: rat) / (49 / 64) = 64" by simp
  from round_49 round_49_64 r t q x ne show ?thesis by blast
qed

text \<open>
  Claim C3, amended. With a positive sampling rate, \<open>TotalCount\<close> is the sum, taken in the
  order of the events and rounded at every addition, of the raw counts times
  \<open>1.0 / samplingRate\<close>, the quotient and each product rounded; and the inclusive and the
  exclusive count of every entry are such sums of the same products, over the events whose
  stack trace contains the frame group and over those whose stack trace ends with it. In
  particular, with the single event \<open>(T1, 3)\<close> and the sampling rate \<open>0.5\<close>, \<open>TotalCount\<close>
  is 6, every entry has \<open>CountInclusive = 6\<close>, and \<open>CountExclusive\<close> is 6 for the frame group
  at the last position of \<open>T1\<close> and 0 for the others.
\<close>

theorem counts_scaled_in_double_arithmetic:
  "jsLt (Finite 0) (samplingRateD p) \<longrightarrow>
     TotalCountD (createTopNFunctionsD d calc p) =
       fold (\<lambda>ev t. jsAdd t (jsMul (snd ev) (jsDiv (Finite 1) (samplingRateD p))))
         (eventsD p) (Finite 0) \<and>
     (\<forall>g e. map_of (snd (accumulateD d p)) g = Some e \<longrightarrow>
        CountInclusiveD e =
          fold (\<lambda>ev c. if g \<in> set (groupsOfD d p (fst ev))
                        then jsAdd c (jsMul (snd ev) (jsDiv (Finite 1) (samplingRateD p))) else c)
            (eventsD p) (Finite 0) \<and>
        CountExclusiveD e =
          fold (\<lambda>ev c. if groupsOfD d p (fst ev) \<noteq> [] \<and> last (groupsOfD d p (fst ev)) = g
                        then jsAdd c (jsMul (snd ev) (jsDiv (Finite 1) (samplingRateD p))) else c)
            (eventsD p) (Finite 0)) \<and>
     (eventsD p = [(T1, Finite 3)] \<and> samplingRateD p = Finite (1 / 2) \<longrightarrow>
        TotalCountD (createTopNFunctionsD d calc p) = Finite 6 \<and>
        (\<forall>g e. map_of (snd (accumulateD d p)) g = Some e \<longrightarrow>
           CountInclusiveD e = Finite 6 \<and>
           CountExclusiveD e = (if last (groupsOfD d p T1) = g then Finite 6 else Finite 0)))"
proof (intro conjI allI impI)
  show "TotalCountD (createTopNFunctionsD d calc p) =
       fold (\<lambda>ev t. jsAdd t (jsMul (snd ev) (jsDiv (Finite 1) (samplingRateD p))))
         (eventsD p) (Finite 0)"
    by (simp only: TotalCountD_createTopNFunctionsD accumulateD_total fold_addTotal_unfold)
next
  fix g e
  assume look: "map_of (snd (accumulateD d p)) g = Some e"
  show "CountInclusiveD e =
          fold (\<lambda>ev c. if g \<in> set (groupsOfD d p (fst ev))
                        then jsAdd c (jsMul (snd ev) (jsDiv (Finite 1) (samplingRateD p))) else c)
            (eventsD p) (Finite 0)"
    using look by (simp only: accumulateD_entry_inclusive fold_addInclusive_unfold)
  show "CountExclusiveD e =
          fold (\<lambda>ev c. if groupsOfD d p (fst ev) \<noteq> [] \<and> last (groupsOfD d p (fst ev)) = g
                        then jsAdd c (jsMul (snd ev) (jsDiv (Finite 1) (samplingRateD p))) else c)
            (eventsD p) (Finite 0)"
    using look by (simp only: accumulateD_entry_exclusive fold_addExclusive_unfold)
next
  assume h: "eventsD p = [(T1, Finite 3)] \<and> samplingRateD p = Finite (1 / 2)"
  from h have ev: "eventsD p = [(T1, Finite 3)]" by (rule conjunct1)
  from h have rate: "samplingRateD p = Finite (1 / 2)" by (rule conjunct2)
  show "TotalCountD (createTopNFunctionsD d calc p) = Finite 6"
    by (simp add: TotalCountD_createTopNFunctionsD accumulateD_total addTotal_def scaledD_def
          ev rate round_facts)
next
  fix g e
  assume h: "eventsD p = [(T1, Finite 3)] \<and> samplingRateD p = Finite (1 / 2)"
    and look: "map_of (snd (accumulateD d p)) g = Some e"
  from h have ev: "eventsD p = [(T1, Finite 3)]" by (rule conjunct1)
  from h have rate: "samplingRateD p = Finite (1 / 2)" by (rule conjunct2)
  have g: "g \<in> set (groupsOfD d p T1)"
    using look ev by (rule lookupD_in_groups)
  then have ne: "groupsOfD d p T1 \<noteq> []" by auto
  show "CountInclusiveD e = Finite 6"
    using g by (simp add: accumulateD_entry_inclusive [OF look] addInclusive_def scaledD_def
          ev rate round_facts)
  show "CountExclusiveD e = (if last (groupsOfD d p T1) = g then Finite 6 else Finite 0)"
    using ne by (simp add: accumulateD_entry_exclusive [OF look] addExclusive_def scaledD_def
          ev rate round_facts)
qed

theorem counts_scaled_in_double_arithmetic_witness:
  "jsLt (Finite 0) (samplingRateD exampleParamsD) \<and>
   eventsD exampleParamsD = [(''T1'', Finite 3)] \<and>
   samplingRateD exampleParamsD = Finite (1 / 2) \<and>
   TotalCountD (createTopNFunctionsD exampleDeps exampleCalcD exampleParamsD) = Finite 6 \<and>
   map (\<lambda>(g, e). (g, CountInclusiveD e, CountExclusiveD e))
     (snd (accumulateD exampleDeps exampleParamsD)) =
     [(''A'', Finite 6, Finite 0), (''B'', Finite 6, Finite 0), (''C'', Finite 6, Finite 6)]"
proof -
  have h1: "jsLt (Finite 0) (samplingRateD exampleParamsD)"
    by (simp add: exampleParamsD_def)
  have h2: "eventsD exampleParamsD = [(''T1'', Finite 3)] \<and>
    samplingRateD exampleParamsD = Finite (1 / 2)"
    by (simp add: exampleParamsD_def)
  have t: "TotalCountD (createTopNFunctionsD exampleDeps exampleCalcD exampleParamsD) = Finite 6"
    using counts_scaled_in_double_arithmetic [of exampleParamsD exampleDeps exampleCalcD "''T1''"]
      h1 h2 by blast
  have v: "map (\<lambda>(g, e). (g, CountInclusiveD e, CountExclusiveD e))
     (snd (accumulateD exampleDeps exampleParamsD)) =
     [(''A'', Finite 6, Finite 0), (''B'', Finite 6, Finite 0), (''C'', Finite 6, Finite 6)]"
    by (simp add: evalD_defs upt_rec round_facts)
  from h1 h2 t v show ?thesis by blast
qed

text \<open>
  Claim C4 does not hold for every map with pairwise distinct \<open>FrameGroupID\<close>s: the string
  comparison may return zero on two distinct strings, as the host's \<open>localeCompare\<close> does
  on \<open>A\<close> and \<open>A\<close> followed by a soft hyphen. The comparison \<open>ignorableCompare\<close> is
  consistent and returns zero on these two. The loop leaves for \<open>tieParams\<close> a map with the
  distinct keys \<open>A\<close>, \<open>A\<close> with the soft hyphen, and \<open>C\<close>, the first two with the exclusive
  count 0. Sorting ascending and reversing gives \<open>C\<close>, \<open>A\<close> with the soft hyphen, \<open>A\<close>,
  which is the order of the rows that createTopNFunctions returns; sorting once with the
  descending comparison function gives \<open>C\<close>, \<open>A\<close>, \<open>A\<close> with the soft hyphen.
\<close>

theorem rank_differs_on_equivalent_ids_counterexample:
  "consistentCompare ignorableCompare \<and>
   ignorableCompare ''A'' (''A'' @ [CHR 0xAD]) = 0 \<and>
   map fst (snd (accumulate tieDeps tieParams)) = [''A'', ''A'' @ [CHR 0xAD], ''C''] \<and>
   map FrameGroupID (map snd (snd (accumulate tieDeps tieParams))) =
     [''A'', ''A'' @ [CHR 0xAD], ''C''] \<and>
   distinct (map FrameGroupID (map snd (snd (accumulate tieDeps tieParams)))) \<and>
   map FrameGroupID (rankTopN ignorableCompare (snd (accumulate tieDeps tieParams))) =
     [''C'', ''A'' @ [CHR 0xAD], ''A''] \<and>
   map FrameGroupID (rankDescending ignorableCompare (snd (accumulate tieDeps tieParams))) =
     [''C'', ''A'', ''A'' @ [CHR 0xAD]] \<and>
   rankTopN ignorableCompare (snd (accumulate tieDeps tieParams)) \<noteq>
     rankDescending ignorableCompare (snd (accumulate tieDeps tieParams)) \<and>
   map RowId (TopN (createTopNFunctions tieDeps tieParams)) = [''C'', ''A'' @ [CHR 0xAD], ''A'']"
proof -
  have z: "ignorableCompare ''A'' (''A'' @ [CHR 0xAD]) = 0"
    by (simp add: ignorableCompare_def lexicographicCompare_def)
  have k: "map fst (snd (accumulate tieDeps tieParams)) = [''A'', ''A'' @ [CHR 0xAD], ''C'']"
    "map FrameGroupID (map snd (snd (accumulate tieDeps tieParams))) =
     [''A'', ''A'' @ [CHR 0xAD], ''C'']"
    "distinct (map FrameGroupID (map snd (snd (accumulate tieDeps tieParams))))"
    unfolding tie_accumulate by simp_all
  have r1: "map FrameGroupID (rankTopN ignorableCompare (snd (accumulate tieDeps tieParams))) =
     [''C'', ''A'' @ [CHR 0xAD], ''A'']"
    unfolding tie_accumulate
    by (simp add: rankTopN_def compareTopN_def ignorableCompare_def lexicographicCompare_def)
  have r2: "map FrameGroupID (rankDescending ignorableCompare (snd (accumulate tieDeps tieParams))) =
     [''C'', ''A'', ''A'' @ [CHR 0xAD]]"
    unfolding tie_accumulate
    by (simp add: rankDescending_def compareDescending_def ignorableCompare_def
          lexicographicCompare_def)
  have ne: "rankTopN ignorableCompare (snd (accumulate tieDeps tieParams)) \<noteq>
     rankDescending ignorableCompare (snd (accumulate tieDeps tieParams))"
  proof
    assume "rankTopN ignorableCompare (snd (accumulate tieDeps tieParams)) =
      rankDescending ignorableCompare (snd (accumulate tieDeps tieParams))"
    then have "map FrameGroupID (rankTopN ignorableCompare (snd (accumulate tieDeps tieParams))) =
      map FrameGroupID (rankDescending ignorableCompare (snd (accumulate tieDeps tieParams)))"
      by (rule arg_cong)
    then show False unfolding r1 r2 by simp
  qed
  have rows: "map RowId (TopN (createTopNFunctions tieDeps tieParams)) =
    [''C'', ''A'' @ [CHR 0xAD], ''A'']"
    by (simp add: eval_defs tieDeps_def tieParams_def ignorableCompare_def example_defs upt_rec)
  from consistentCompare_ignorableCompare z k r1 r2 ne rows show ?thesis by blast
qed

text \<open>
  Claim C4, amended. Let the string comparison be consistent. For every map whose
  \<open>FrameGroupID\<close>s are pairwise non-equivalent under it, that is, on no two of which it
  returns zero, and whose exclusive counts can be compared, sorting ascending by exclusive
  count with ties broken by the ascending string order and then reversing gives the same
  sequence as sorting once with the comparison function that orders descending by exclusive
  count with ties broken by the descending string order. Exact counts can always be
  compared; double counts can when none of them is \<open>NaN\<close>.
\<close>

theorem rank_equals_descending_sort_of_non_equivalent_ids:
  "consistentCompare lc \<Longrightarrow>
   (pairwiseNonEquivalent lc (map FrameGroupID (map snd m)) \<longrightarrow>
      rankTopN lc m = rankDescending lc m) \<and>
   (pairwiseNonEquivalent lc (map FrameGroupIDD (map snd n)) \<and>
    NaN \<notin> set (map CountExclusiveD (map snd n)) \<longrightarrow>
      rankTopND lc n = rankDescendingD lc n)"
proof (intro conjI impI)
  assume lc: "consistentCompare lc"
  show "rankTopN lc m = rankDescending lc m"
    if "pairwiseNonEquivalent lc (map FrameGroupID (map snd m))"
    unfolding rankTopN_def rankDescending_def using lc that by (rule rev_sort_eq_sort_descending)
  show "rankTopND lc n = rankDescendingD lc n"
    if "pairwiseNonEquivalent lc (map FrameGroupIDD (map snd n)) \<and>
        NaN \<notin> set (map CountExclusiveD (map snd n))"
    unfolding rankTopND_def rankDescendingD_def
    using lc that by (intro rev_sort_eq_sort_descendingD) simp_all
qed

theorem rank_equals_descending_sort_of_non_equivalent_ids_witness:
  "consistentCompare ignorableCompare \<and>
   pairwiseNonEquivalent ignorableCompare (map FrameGroupID (map snd exampleAccumulator)) \<and>
   rankTopN ignorableCompare exampleAccumulator =
     rankDescending ignorableCompare exampleAccumulator \<and>
   map FrameGroupID (rankDescending ignorableCompare exampleAccumulator) = [''C'', ''B'', ''A''] \<and>
   snd (accumulate exampleDeps exampleParams) = exampleAccumulator \<and>
   pairwiseNonEquivalent ignorableCompare
     (map FrameGroupIDD (map snd (snd (accumulateD exampleDeps exampleParamsD)))) \<and>
   NaN \<notin> set (map CountExclusiveD (map snd (snd (accumulateD exampleDeps exampleParamsD)))) \<and>
   rankTopND ignorableCompare (snd (accumulateD exampleDeps exampleParamsD)) =
     rankDescendingD ignorableCompare (snd (accumulateD exampleDeps exampleParamsD)) \<and>
   map FrameGroupIDD
     (rankDescendingD ignorableCompare (snd (accumulateD exampleDeps exampleParamsD))) =
     [''C'', ''B'', ''A'']"
proof -
  have d: "pairwiseNonEquivalent ignorableCompare (map FrameGroupID (map snd exampleAccumulator))"
    by (simp add: exampleAccumulator_def pairwiseNonEquivalent_Cons ignorableCompare_def
          lexicographicCompare_def)
  have r: "map FrameGroupID (rankDescending ignorableCompare exampleAccumulator) =
           [''C'', ''B'', ''A'']"
    by (simp add: rankDescending_def compareDescending_def ignorableCompare_def
          lexicographicCompare_def exampleAccumulator_def)
  have d2: "pairwiseNonEquivalent ignorableCompare
     (map FrameGroupIDD (map snd (snd (accumulateD exampleDeps exampleParamsD))))"
    unfolding exampleD_accumulate
    by (simp add: pairwiseNonEquivalent_Cons ignorableCompare_def lexicographicCompare_def)
  have n2: "NaN \<notin> set (map CountExclusiveD (map snd (snd (accumulateD exampleDeps exampleParamsD))))"
    unfolding exampleD_accumulate by simp
  have r2: "map FrameGroupIDD
     (rankDescendingD ignorableCompare (snd (accumulateD exampleDeps exampleParamsD))) =
     [''C'', ''B'', ''A'']"
    unfolding exampleD_accumulate
    by (simp add: rankDescendingD_def compareDescendingD_def jsGt_def ignorableCompare_def
          lexicographicCompare_def)
  from rank_equals_descending_sort_of_non_equivalent_ids
         [OF consistentCompare_ignorableCompare, of exampleAccumulator
           "snd (accumulateD exampleDeps exampleParamsD)"]
    consistentCompare_ignorableCompare d r example_accumulate d2 n2 r2
  show ?thesis by blast
qed


text \<open>
  Claim C5. Let \<open>n\<close> be the number of ranked entries. The rows of \<open>TopN\<close> are made, in
  order, from the slice of the ranked sequence from \<open>min startIndex n\<close> to
  \<open>min endIndex n\<close>: an index is lowered to \<open>n\<close> when it is greater and is otherwise left
  as it is, and the two are not exchanged. The row at position \<open>i\<close> of \<open>TopN\<close> has
  \<open>Rank = i + 1\<close> and the identifier, frame and counts of the entry at position \<open>i\<close> of the
  slice. The slice is the one of \<open>Array.prototype.slice\<close>; for indices that are not
  negative it is the run of \<open>min endIndex n - min startIndex n\<close> entries after the first
  \<open>min startIndex n\<close>, which is empty when the end is not after the start. With 5 ranked
  entries, \<open>startIndex = 10\<close> and \<open>endIndex = 20\<close>, \<open>TopN\<close> is empty.
\<close>

theorem pagination_clamp_slice_rank:
  "let ranked = rankTopN (localeCompare d) (snd (accumulate d p));
       n = int (length ranked);
       page = slice ranked (min (startIndex p) n) (min (endIndex p) n);
       rows = TopN (createTopNFunctions d p)
   in length rows = length page \<and>
      (\<forall>i<length page.
         Rank (rows ! i) = i + 1 \<and>
         RowId (rows ! i) = FrameGroupID (page ! i) \<and>
         RowFrame (rows ! i) = Frame (page ! i) \<and>
         RowCountExclusive (rows ! i) = CountExclusive (page ! i) \<and>
         RowCountInclusive (rows ! i) = CountInclusive (page ! i)) \<and>
      (0 \<le> startIndex p \<and> 0 \<le> endIndex p \<longrightarrow>
         page = take (nat (min (endIndex p) n - min (startIndex p) n))
                  (drop (nat (min (startIndex p) n)) ranked)) \<and>
      (n = 5 \<and> startIndex p = 10 \<and> endIndex p = 20 \<longrightarrow> rows = [])"
proof -
  define ranked where "ranked = rankTopN (localeCompare d) (snd (accumulate d p))"
  define n where "n = int (length ranked)"
  define page where "page = slice ranked (min (startIndex p) n) (min (endIndex p) n)"
  define rows where "rows = TopN (createTopNFunctions d p)"
  have rows: "rows = map (makeRow d (fst (accumulate d p)) (totalSeconds p)) (enumerate 0 page)"
    unfolding rows_def page_def n_def ranked_def
    by (simp only: TopN_createTopNFunctions clampIndex_min)
  have len: "length rows = length page"
    by (simp add: rows)
  have row: "Rank (rows ! i) = i + 1 \<and>
         RowId (rows ! i) = FrameGroupID (page ! i) \<and>
         RowFrame (rows ! i) = Frame (page ! i) \<and>
         RowCountExclusive (rows ! i) = CountExclusive (page ! i) \<and>
         RowCountInclusive (rows ! i) = CountInclusive (page ! i)" if "i < length page" for i
    using that by (simp add: rows nth_enumerate_eq makeRow_fields)
  have sl: "page = take (nat (min (endIndex p) n - min (startIndex p) n))
                  (drop (nat (min (startIndex p) n)) ranked)"
    if "0 \<le> startIndex p \<and> 0 \<le> endIndex p"
    unfolding page_def using that by (intro slice_nonneg) (simp_all add: n_def)
  have empty: "rows = []" if "n = 5 \<and> startIndex p = 10 \<and> endIndex p = 20"
  proof -
    from that have "min (startIndex p) n = int (length ranked)"
      by (simp add: n_def)
    then have "page = []"
      unfolding page_def by (simp only: slice_at_end)
    then show ?thesis by (simp add: rows)
  qed
  from len row sl empty show ?thesis
    unfolding Let_def ranked_def [symmetric] n_def [symmetric] page_def [symmetric]
      rows_def [symmetric]
    by blast
qed

theorem pagination_clamp_slice_rank_witness:
  "int (length (rankTopN (localeCompare exampleDeps)
     (snd (accumulate exampleDeps
        (exampleParams\<lparr>events := [(''T5'', 1)], startIndex := 10, endIndex := 20\<rparr>))))) = 5 \<and>
   startIndex (exampleParams\<lparr>events := [(''T5'', 1)], startIndex := 10, endIndex := 20\<rparr>) = 10 \<and>
   endIndex (exampleParams\<lparr>events := [(''T5'', 1)], startIndex := 10, endIndex := 20\<rparr>) = 20 \<and>
   TopN (createTopNFunctions exampleDeps
     (exampleParams\<lparr>events := [(''T5'', 1)], startIndex := 10, endIndex := 20\<rparr>)) = [] \<and>
   0 \<le> startIndex (exampleParams\<lparr>startIndex := 1, endIndex := 7\<rparr>) \<and>
   0 \<le> endIndex (exampleParams\<lparr>startIndex := 1, endIndex := 7\<rparr>) \<and>
   map Rank (TopN (createTopNFunctions exampleDeps (exampleParams\<lparr>startIndex := 1, endIndex := 7\<rparr>)))
     = [1, 2] \<and>
   map RowId (TopN (createTopNFunctions exampleDeps (exampleParams\<lparr>startIndex := 1, endIndex := 7\<rparr>)))
     = [''B'', ''A'']"
proof -
  let ?p = "exampleParams\<lparr>events := [(''T5'', 1)], startIndex := 10, endIndex := 20\<rparr>"
  let ?q = "exampleParams\<lparr>startIndex := 1, endIndex := 7\<rparr>"
  have n: "int (length (rankTopN (localeCompare exampleDeps) (snd (accumulate exampleDeps ?p)))) = 5"
    by (simp add: length_rankTopN accumulate_def eventStep_def frameStep_def modify_def
          example_defs upt_rec Let_def)
  have i: "startIndex ?p = 10" "endIndex ?p = 20" "0 \<le> startIndex ?q" "0 \<le> endIndex ?q"
    by (simp_all add: exampleParams_def)
  have e: "TopN (createTopNFunctions exampleDeps ?p) = []"
    using pagination_clamp_slice_rank [of exampleDeps ?p] n i by (simp add: Let_def)
  have q: "map Rank (TopN (createTopNFunctions exampleDeps ?q)) = [1, 2]"
    "map RowId (TopN (createTopNFunctions exampleDeps ?q)) = [''B'', ''A'']"
    by (simp_all add: eval_defs example_defs upt_rec)
  from n i e q show ?thesis by blast
qed

text \<open>
  Claim C6. When \<open>totalSeconds \<le> 0\<close>, the field \<open>impactEstimates\<close> is absent from the
  report and from every row of \<open>TopN\<close>. When \<open>totalSeconds > 0\<close>, the report carries the
  value of \<open>calculateImpactEstimates\<close> at the sums of the exclusive and inclusive counts of
  the returned rows, and every row carries its value at the row's own counts, both with the
  total count and \<open>totalSeconds\<close>.
\<close>

theorem impact_estimates_gated_by_totalSeconds:
  "(totalSeconds p \<le> 0 \<longrightarrow>
      impactEstimates (createTopNFunctions d p) = None \<and>
      (\<forall>row\<in>set (TopN (createTopNFunctions d p)). RowImpactEstimates row = None)) \<and>
   (0 < totalSeconds p \<longrightarrow>
      impactEstimates (createTopNFunctions d p) =
        Some (calculateImpactEstimates d
                (sum_list (map RowCountExclusive (TopN (createTopNFunctions d p))))
                (sum_list (map RowCountInclusive (TopN (createTopNFunctions d p))))
                (TotalCount (createTopNFunctions d p)) (totalSeconds p)) \<and>
      (\<forall>row\<in>set (TopN (createTopNFunctions d p)).
         RowImpactEstimates row =
           Some (calculateImpactEstimates d (RowCountExclusive row) (RowCountInclusive row)
                   (TotalCount (createTopNFunctions d p)) (totalSeconds p))))"
proof (intro conjI impI ballI)
  assume "totalSeconds p \<le> 0"
  then have neg: "\<not> 0 < totalSeconds p" by simp
  show "impactEstimates (createTopNFunctions d p) = None"
    using neg by (simp only: impactEstimates_createTopNFunctions if_False)
  show "RowImpactEstimates row = None" if "row \<in> set (TopN (createTopNFunctions d p))" for row
    using neg by (simp only: row_impactEstimates [OF that] if_False)
next
  assume pos: "0 < totalSeconds p"
  show "impactEstimates (createTopNFunctions d p) =
        Some (calculateImpactEstimates d
                (sum_list (map RowCountExclusive (TopN (createTopNFunctions d p))))
                (sum_list (map RowCountInclusive (TopN (createTopNFunctions d p))))
                (TotalCount (createTopNFunctions d p)) (totalSeconds p))"
    using pos by (subst impactEstimates_createTopNFunctions) (simp only: if_True)
  show "RowImpactEstimates row =
           Some (calculateImpactEstimates d (RowCountExclusive row) (RowCountInclusive row)
                   (TotalCount (createTopNFunctions d p)) (totalSeconds p))"
    if "row \<in> set (TopN (createTopNFunctions d p))" for row
    using pos by (simp only: row_impactEstimates [OF that] if_True)
qed

theorem impact_estimates_gated_by_totalSeconds_witness:
  "totalSeconds exampleParams \<le> 0 \<and>
   impactEstimates (createTopNFunctions exampleDeps exampleParams) = None \<and>
   map RowImpactEstimates (TopN (createTopNFunctions exampleDeps exampleParams)) =
     [None, None, None] \<and>
   0 < totalSeconds (exampleParams\<lparr>totalSeconds := 5\<rparr>) \<and>
   impactEstimates (createTopNFunctions exampleDeps (exampleParams\<lparr>totalSeconds := 5\<rparr>)) = Some 2 \<and>
   map RowImpactEstimates
     (TopN (createTopNFunctions exampleDeps (exampleParams\<lparr>totalSeconds := 5\<rparr>))) =
     [Some 2, Some 0, Some 0]"
proof -
  let ?q = "exampleParams\<lparr>totalSeconds := 5\<rparr>"
  have h: "totalSeconds exampleParams \<le> 0" "0 < totalSeconds ?q"
    by (simp_all add: exampleParams_def)
  have a: "impactEstimates (createTopNFunctions exampleDeps exampleParams) = None"
    using impact_estimates_gated_by_totalSeconds [of exampleParams exampleDeps] h(1) by blast
  have b: "map RowImpactEstimates (TopN (createTopNFunctions exampleDeps exampleParams)) =
     [None, None, None]"
    by (simp add: eval_defs example_defs upt_rec)
  have c: "impactEstimates (createTopNFunctions exampleDeps ?q) = Some 2"
    "map RowImpactEstimates (TopN (createTopNFunctions exampleDeps ?q)) = [Some 2, Some 0, Some 0]"
    by (simp_all add: eval_defs example_defs upt_rec)
  from h a b c show ?thesis by blast
qed

text \<open>
  Claim C7. When the field-capabilities call resolves, the handler of
  \<open>POST /api/watcher/fields\<close> answers 200. The body is the downstream rendering of the
  \<open>Fields\<close> model built from \<open>{ fields: [] }\<close> when the property \<open>status\<close> of the response
  is the number 404, and of the model built from the response itself otherwise.
\<close>

theorem list_fields_success:
  "fetchFields d indexes = Inr fieldsResponse \<Longrightarrow>
   (map_of fieldsResponse ''status'' = Some (JNumber 404) \<longrightarrow>
      listFieldsHandler d indexes =
        Responds \<lparr>status = 200,
          body = FieldsBody (downstreamJson d (fromUpstreamJson d [(''fields'', JArray [])]))\<rparr>) \<and>
   (map_of fieldsResponse ''status'' \<noteq> Some (JNumber 404) \<longrightarrow>
      listFieldsHandler d indexes =
        Responds \<lparr>status = 200,
          body = FieldsBody (downstreamJson d (fromUpstreamJson d fieldsResponse))\<rparr>)"
  by (simp add: listFieldsHandler_def response_ok_def Let_def)

theorem list_fields_success_witness:
  "fetchFields exampleRouteDeps [''missing''] = Inr [(''status'', JNumber 404)] \<and>
   listFieldsHandler exampleRouteDeps [''missing''] =
     Responds \<lparr>status = 200, body = FieldsBody [(''fields'', JArray [])]\<rparr> \<and>
   fetchFields exampleRouteDeps [''logs''] = Inr [(''fields'', JArray [JString ''host.name''])] \<and>
   listFieldsHandler exampleRouteDeps [''logs''] =
     Responds \<lparr>status = 200, body = FieldsBody [(''fields'', JArray [JString ''host.name''])]\<rparr>"
proof -
  have a: "fetchFields exampleRouteDeps [''missing''] = Inr [(''status'', JNumber 404)]"
    by (simp add: fetchFields_def exampleRouteDeps_def)
  have b: "fetchFields exampleRouteDeps [''logs''] = Inr [(''fields'', JArray [JString ''host.name''])]"
    by (simp add: fetchFields_def exampleRouteDeps_def)
  from list_fields_success [OF a] list_fields_success [OF b] a b show ?thesis
    by (simp add: exampleRouteDeps_def)
qed

text \<open>
  Claim C8. When the field-capabilities call throws an error, the handler answers with the
  error's \<open>statusCode\<close> as status and the body \<open>{ message }\<close> of the error's message if
  \<open>isEsError\<close> recognises the error, and throws the error again if it does not.
\<close>

theorem list_fields_error:
  "fetchFields d indexes = Inl e \<Longrightarrow>
   (isEsError d e \<longrightarrow>
      listFieldsHandler d indexes =
        Responds \<lparr>status = statusCode d e, body = MessageBody (message d e)\<rparr>) \<and>
   (\<not> isEsError d e \<longrightarrow> listFieldsHandler d indexes = Throws e)"
  by (simp add: listFieldsHandler_def response_customError_def)

theorem list_fields_error_witness:
  "fetchFields exampleRouteDeps [''down''] = Inl (True, 503, ''cluster unavailable'') \<and>
   isEsError exampleRouteDeps (True, 503, ''cluster unavailable'') \<and>
   listFieldsHandler exampleRouteDeps [''down''] =
     Responds \<lparr>status = 503, body = MessageBody ''cluster unavailable''\<rparr> \<and>
   fetchFields exampleRouteDeps [''broken''] = Inl (False, 0, ''boom'') \<and>
   \<not> isEsError exampleRouteDeps (False, 0, ''boom'') \<and>
   listFieldsHandler exampleRouteDeps [''broken''] = Throws (False, 0, ''boom'')"
proof -
  have a: "fetchFields exampleRouteDeps [''down''] = Inl (True, 503, ''cluster unavailable'')"
    by (simp add: fetchFields_def exampleRouteDeps_def)
  have b: "fetchFields exampleRouteDeps [''broken''] = Inl (False, 0, ''boom'')"
    by (simp add: fetchFields_def exampleRouteDeps_def)
  from list_fields_error [OF a] list_fields_error [OF b] a b show ?thesis
    by (simp add: exampleRouteDeps_def)
qed

text \<open>
  Claim C9. In the action of the route \<open>loadWorkpad\<close>, when the id of the current workpad
  is the requested id: if \<open>parseInt\<close> of the page parameter is NaN, the only effect is the
  redirect to \<open>loadWorkpad\<close> with the id of the current workpad and its page index plus 1;
  if it is the number \<open>n\<close>, the only effect is the dispatch of \<open>gotoPage(n - 1)\<close> when
  \<open>n - 1\<close> differs from the page index of the workpad, and there is no effect when they
  are equal.
\<close>

theorem load_workpad_page:
  "workpadId (getWorkpad st s) = paramsId \<Longrightarrow>
   (parseInt10 paramsPage = None \<longrightarrow>
      fst (loadWorkpad st s paramsId paramsPage) =
        [RedirectTo ''loadWorkpad''
           (Some (workpadId (getWorkpad st s), page (getWorkpad st s) + 1))]) \<and>
   (\<forall>n. parseInt10 paramsPage = Some n \<longrightarrow>
      fst (loadWorkpad st s paramsId paramsPage) =
        (if n - 1 \<noteq> page (getWorkpad st s) then [Dispatch (GotoPage (n - 1))] else []))"
  by (auto simp: loadWorkpad_def Let_def)

theorem load_workpad_page_witness:
  "workpadId (getWorkpad exampleStore \<lparr>workpadId = ''w1'', page = 2\<rparr>) = ''w1'' \<and>
   parseInt10 None = None \<and>
   fst (loadWorkpad exampleStore \<lparr>workpadId = ''w1'', page = 2\<rparr> ''w1'' None) =
     [RedirectTo ''loadWorkpad'' (Some (''w1'', 3))] \<and>
   parseInt10 (Some ''3'') = Some 3 \<and>
   fst (loadWorkpad exampleStore \<lparr>workpadId = ''w1'', page = 2\<rparr> ''w1'' (Some ''3'')) = [] \<and>
   parseInt10 (Some ''1'') = Some 1 \<and>
   fst (loadWorkpad exampleStore \<lparr>workpadId = ''w1'', page = 2\<rparr> ''w1'' (Some ''1'')) =
     [Dispatch (GotoPage 0)]"
proof -
  have w: "workpadId (getWorkpad exampleStore \<lparr>workpadId = ''w1'', page = 2\<rparr>) = ''w1''"
    by (simp add: exampleStore_def)
  have p0: "parseInt10 None = None"
    and p3: "parseInt10 (Some ''3'') = Some 3"
    and p1: "parseInt10 (Some ''1'') = Some 1"
    by (simp_all add: parseInt10_def isWhiteSpace_def isDigit_def digitsValue_def)
  from load_workpad_page [OF w, of None] load_workpad_page [OF w, of "Some ''3''"]
    load_workpad_page [OF w, of "Some ''1''"] w p0 p3 p1
  show ?thesis by (simp add: exampleStore_def)
qed

text \<open>
  Claim C10 does not hold for every positive sampling rate and counts that are not
  negative. With the sampling rate \<open>2 ^ - 1074\<close>, the least positive double, the quotient
  \<open>1.0 / samplingRate\<close> is \<open>Infinity\<close>, and the scaled count of an event with the count 0 is
  \<open>0 * Infinity = NaN\<close>. With the single event \<open>(T1, 0)\<close>, \<open>TotalCount\<close> and the inclusive
  count of every entry are \<open>NaN\<close>, as is the exclusive count of the last frame group, and
  no comparison with \<open>NaN\<close> holds.
\<close>

theorem counts_not_ordered_counterexample:
  "roundDouble (1 / 2 ^ 1074) = Finite (1 / 2 ^ 1074) \<and>
   jsLt (Finite 0)
     (samplingRateD (exampleParamsD\<lparr>eventsD := [(''T1'', Finite 0)],
                                    samplingRateD := Finite (1 / 2 ^ 1074)\<rparr>)) \<and>
   list_all (\<lambda>ev. jsLe (Finite 0) (snd ev))
     (eventsD (exampleParamsD\<lparr>eventsD := [(''T1'', Finite 0)],
                               samplingRateD := Finite (1 / 2 ^ 1074)\<rparr>)) \<and>
   jsDiv (Finite 1) (Finite (1 / 2 ^ 1074)) = PosInf \<and>
   jsMul (Finite 0) PosInf = NaN \<and>
   map (\<lambda>(g, e). (g, CountExclusiveD e, CountInclusiveD e))
     (snd (accumulateD exampleDeps
        (exampleParamsD\<lparr>eventsD := [(''T1'', Finite 0)],
                         samplingRateD := Finite (1 / 2 ^ 1074)\<rparr>))) =
     [(''A'', Finite 0, NaN), (''B'', Finite 0, NaN), (''C'', NaN, NaN)] \<and>
   TotalCountD (createTopNFunctionsD exampleDeps exampleCalcD
     (exampleParamsD\<lparr>eventsD := [(''T1'', Finite 0)],
                      samplingRateD := Finite (1 / 2 ^ 1074)\<rparr>)) = NaN \<and>
   map (\<lambda>row. (RowIdD row, RowCountExclusiveD row, RowCountInclusiveD row))
     (TopND (createTopNFunctionsD exampleDeps exampleCalcD
        (exampleParamsD\<lparr>eventsD := [(''T1'', Finite 0)],
                         samplingRateD := Finite (1 / 2 ^ 1074)\<rparr>))) =
     [(''C'', NaN, NaN), (''B'', Finite 0, NaN), (''A'', Finite 0, NaN)] \<and>
   \<not> jsLe (Finite 0) NaN \<and> \<not> jsLe NaN NaN"
proof -
  let ?p = "exampleParamsD\<lparr>eventsD := [(''T1'', Finite 0)],
                            samplingRateD := Finite (1 / 2 ^ 1074)\<rparr>"
  have h: "jsLt (Finite 0) (samplingRateD ?p)"
    "list_all (\<lambda>ev. jsLe (Finite 0) (snd ev)) (eventsD ?p)"
    by (simp_all add: exampleParamsD_def)
  have s: "jsDiv (Finite 1) (Finite (1 / 2 ^ 1074)) = PosInf" "jsMul (Finite 0) PosInf = NaN"
    by (simp_all add: roundDouble_overflow)
  have a: "map (\<lambda>(g, e). (g, CountExclusiveD e, CountInclusiveD e))
     (snd (accumulateD exampleDeps ?p)) =
     [(''A'', Finite 0, NaN), (''B'', Finite 0, NaN), (''C'', NaN, NaN)]"
    by (simp add: evalD_defs upt_rec roundDouble_overflow)
  have t: "TotalCountD (createTopNFunctionsD exampleDeps exampleCalcD ?p) = NaN"
    by (simp add: TotalCountD_createTopNFunctionsD accumulateD_total addTotal_def scaledD_def
          exampleParamsD_def roundDouble_overflow)
  have acc: "snd (accumulateD exampleDeps ?p) =
     [(''A'', \<lparr>FrameD = ''A'', FrameGroupIDD = ''A'', CountExclusiveD = Finite 0,
              CountInclusiveD = NaN\<rparr>),
      (''B'', \<lparr>FrameD = ''B'', FrameGroupIDD = ''B'', CountExclusiveD = Finite 0,
              CountInclusiveD = NaN\<rparr>),
      (''C'', \<lparr>FrameD = ''C'', FrameGroupIDD = ''C'', CountExclusiveD = NaN,
              CountInclusiveD = NaN\<rparr>)]"
    by (simp add: evalD_defs upt_rec roundDouble_overflow)
  have r: "map (\<lambda>row. (RowIdD row, RowCountExclusiveD row, RowCountInclusiveD row))
     (TopND (createTopNFunctionsD exampleDeps exampleCalcD ?p)) =
     [(''C'', NaN, NaN), (''B'', Finite 0, NaN), (''A'', Finite 0, NaN)]"
    unfolding TopND_createTopNFunctionsD acc
    by (simp add: rankTopND_def compareTopND_def jsGt_def lexicographicCompare_def
          exampleDeps_def exampleParamsD_def clampIndex_def slice_def enumerate_eq_zip upt_rec
          makeRowD_def Let_def)
  have n: "\<not> jsLe (Finite 0) NaN" "\<not> jsLe NaN NaN" by simp_all
  from round_min_subnormal h s a t r n show ?thesis by blast
qed

text \<open>
  Claim C10, amended. With a positive sampling rate, event counts that are not negative, and
  no event whose scaled count \<open>count * (1.0 / samplingRate)\<close> is \<open>NaN\<close>, every entry of the
  map after the loop, and every row of \<open>TopN\<close>, satisfies
  \<open>0 <= CountExclusive <= CountInclusive <= TotalCount\<close>. The exclusive count adds the
  scaled counts of the events whose stack trace ends with the frame group, the inclusive
  count those of the events whose stack trace contains it, once per event, and \<open>TotalCount\<close>
  those of all events; a stack trace that ends with a frame group contains it.
\<close>

theorem counts_ordered_unless_NaN:
  assumes "jsLt (Finite 0) (samplingRateD p)"
    and "\<forall>ev\<in>set (eventsD p). jsLe (Finite 0) (snd ev)"
    and "\<forall>ev\<in>set (eventsD p). jsMul (snd ev) (jsDiv (Finite 1) (samplingRateD p)) \<noteq> NaN"
  shows
   "(\<forall>(g, e)\<in>set (snd (accumulateD d p)).
       jsLe (Finite 0) (CountExclusiveD e) \<and> jsLe (CountExclusiveD e) (CountInclusiveD e) \<and>
       jsLe (CountInclusiveD e) (fst (accumulateD d p))) \<and>
    (\<forall>row\<in>set (TopND (createTopNFunctionsD d calc p)).
       jsLe (Finite 0) (RowCountExclusiveD row) \<and>
       jsLe (RowCountExclusiveD row) (RowCountInclusiveD row) \<and>
       jsLe (RowCountInclusiveD row) (TotalCountD (createTopNFunctionsD d calc p))) \<and>
    (\<forall>(g, e)\<in>set (snd (accumulateD d p)).
       CountExclusiveD e =
         fold (\<lambda>ev c. if groupsOfD d p (fst ev) \<noteq> [] \<and> last (groupsOfD d p (fst ev)) = g
                       then jsAdd c (jsMul (snd ev) (jsDiv (Finite 1) (samplingRateD p))) else c)
           (eventsD p) (Finite 0) \<and>
       CountInclusiveD e =
         fold (\<lambda>ev c. if g \<in> set (groupsOfD d p (fst ev))
                       then jsAdd c (jsMul (snd ev) (jsDiv (Finite 1) (samplingRateD p))) else c)
           (eventsD p) (Finite 0)) \<and>
    fst (accumulateD d p) =
      fold (\<lambda>ev t. jsAdd t (jsMul (snd ev) (jsDiv (Finite 1) (samplingRateD p))))
        (eventsD p) (Finite 0) \<and>
    (\<forall>ev g. groupsOfD d p (fst ev) \<noteq> [] \<and> last (groupsOfD d p (fst ev)) = g \<longrightarrow>
       g \<in> set (groupsOfD d p (fst ev)))"
proof (intro conjI ballI allI impI)
  fix ge assume ge: "ge \<in> set (snd (accumulateD d p))"
  obtain g e where "ge = (g, e)" by (cases ge)
  with ge entry_bounds [OF assms, of g e d]
  show "case ge of (g, e) \<Rightarrow>
       jsLe (Finite 0) (CountExclusiveD e) \<and> jsLe (CountExclusiveD e) (CountInclusiveD e) \<and>
       jsLe (CountInclusiveD e) (fst (accumulateD d p))"
    by simp
next
  fix row assume "row \<in> set (TopND (createTopNFunctionsD d calc p))"
  from rowD_from_entry [OF this] obtain i e
    where e: "e \<in> snd ` set (snd (accumulateD d p))"
      and row: "row = makeRowD calc (fst (accumulateD d p)) (totalSecondsD p) (i, e)"
    by blast
  from e obtain g where "(g, e) \<in> set (snd (accumulateD d p))" by auto
  from entry_bounds [OF assms this] row
  show "jsLe (Finite 0) (RowCountExclusiveD row)"
    "jsLe (RowCountExclusiveD row) (RowCountInclusiveD row)"
    "jsLe (RowCountInclusiveD row) (TotalCountD (createTopNFunctionsD d calc p))"
    by (simp_all add: makeRowD_counts TotalCountD_createTopNFunctionsD)
next
  fix ge assume ge: "ge \<in> set (snd (accumulateD d p))"
  obtain g e where p: "ge = (g, e)" by (cases ge)
  have look: "map_of (snd (accumulateD d p)) g = Some e"
    using accumulateD_distinct ge [unfolded p] by (rule map_of_is_SomeI)
  show "case ge of (g, e) \<Rightarrow>
       CountExclusiveD e =
         fold (\<lambda>ev c. if groupsOfD d p (fst ev) \<noteq> [] \<and> last (groupsOfD d p (fst ev)) = g
                       then jsAdd c (jsMul (snd ev) (jsDiv (Finite 1) (samplingRateD p))) else c)
           (eventsD p) (Finite 0) \<and>
       CountInclusiveD e =
         fold (\<lambda>ev c. if g \<in> set (groupsOfD d p (fst ev))
                       then jsAdd c (jsMul (snd ev) (jsDiv (Finite 1) (samplingRateD p))) else c)
           (eventsD p) (Finite 0)"
    unfolding p using look
    by (simp only: prod.case accumulateD_entry_inclusive accumulateD_entry_exclusive
          fold_addInclusive_unfold fold_addExclusive_unfold simp_thms)
next
  show "fst (accumulateD d p) =
      fold (\<lambda>ev t. jsAdd t (jsMul (snd ev) (jsDiv (Finite 1) (samplingRateD p))))
        (eventsD p) (Finite 0)"
    by (simp only: accumulateD_total fold_addTotal_unfold)
next
  fix ev g
  assume "groupsOfD d p (fst ev) \<noteq> [] \<and> last (groupsOfD d p (fst ev)) = g"
  then show "g \<in> set (groupsOfD d p (fst ev))" using last_in_set by blast
qed

theorem counts_ordered_unless_NaN_witness:
  "jsLt (Finite 0)
     (samplingRateD (exampleParamsD\<lparr>eventsD := [(''T1'', Finite 49), (''T2'', Finite 5)],
                                    samplingRateD := Finite (49 / 64)\<rparr>)) \<and>
   list_all (\<lambda>ev. jsLe (Finite 0) (snd ev))
     (eventsD (exampleParamsD\<lparr>eventsD := [(''T1'', Finite 49), (''T2'', Finite 5)],
                               samplingRateD := Finite (49 / 64)\<rparr>)) \<and>
   list_all (\<lambda>ev. jsMul (snd ev) (jsDiv (Finite 1) (Finite (49 / 64))) \<noteq> NaN)
     (eventsD (exampleParamsD\<lparr>eventsD := [(''T1'', Finite 49), (''T2'', Finite 5)],
                               samplingRateD := Finite (49 / 64)\<rparr>)) \<and>
   list_all (\<lambda>row.
       jsLe (Finite 0) (RowCountExclusiveD row) \<and>
       jsLe (RowCountExclusiveD row) (RowCountInclusiveD row) \<and>
       jsLe (RowCountInclusiveD row)
         (TotalCountD (createTopNFunctionsD exampleDeps exampleCalcD
           (exampleParamsD\<lparr>eventsD := [(''T1'', Finite 49), (''T2'', Finite 5)],
                            samplingRateD := Finite (49 / 64)\<rparr>))))
     (TopND (createTopNFunctionsD exampleDeps exampleCalcD
        (exampleParamsD\<lparr>eventsD := [(''T1'', Finite 49), (''T2'', Finite 5)],
                         samplingRateD := Finite (49 / 64)\<rparr>))) \<and>
   map (\<lambda>(g, e). (g, CountExclusiveD e, CountInclusiveD e))
     (snd (accumulateD exampleDeps
        (exampleParamsD\<lparr>eventsD := [(''T1'', Finite 49), (''T2'', Finite 5)],
                         samplingRateD := Finite (49 / 64)\<rparr>))) =
     [(''A'', Finite 0, Finite (4963150609755240 / 2 ^ 46)),
      (''B'', Finite (7352815718155911 / 2 ^ 50), Finite (4963150609755240 / 2 ^ 46)),
      (''C'', Finite (9007199254740991 / 2 ^ 47), Finite (9007199254740991 / 2 ^ 47))] \<and>
   TotalCountD (createTopNFunctionsD exampleDeps exampleCalcD
     (exampleParamsD\<lparr>eventsD := [(''T1'', Finite 49), (''T2'', Finite 5)],
                      samplingRateD := Finite (49 / 64)\<rparr>)) =
     Finite (4963150609755240 / 2 ^ 46)"
proof -
  let ?p = "exampleParamsD\<lparr>eventsD := [(''T1'', Finite 49), (''T2'', Finite 5)],
                            samplingRateD := Finite (49 / 64)\<rparr>"
  have h1: "jsLt (Finite 0) (samplingRateD ?p)"
    by (simp add: exampleParamsD_def)
  have h2: "\<forall>ev\<in>set (eventsD ?p). jsLe (Finite 0) (snd ev)"
    by (simp add: exampleParamsD_def)
  have h3: "\<forall>ev\<in>set (eventsD ?p). jsMul (snd ev) (jsDiv (Finite 1) (samplingRateD ?p)) \<noteq> NaN"
    by (simp add: exampleParamsD_def round_facts)
  have h2': "list_all (\<lambda>ev. jsLe (Finite 0) (snd ev)) (eventsD ?p)"
    using h2 by (simp only: list_all_iff)
  have h3': "list_all (\<lambda>ev. jsMul (snd ev) (jsDiv (Finite 1) (Finite (49 / 64))) \<noteq> NaN)
     (eventsD ?p)"
    using h3 by (simp add: list_all_iff exampleParamsD_def)
  have b: "list_all (\<lambda>row.
       jsLe (Finite 0) (RowCountExclusiveD row) \<and>
       jsLe (RowCountExclusiveD row) (RowCountInclusiveD row) \<and>
       jsLe (RowCountInclusiveD row)
         (TotalCountD (createTopNFunctionsD exampleDeps exampleCalcD ?p)))
     (TopND (createTopNFunctionsD exampleDeps exampleCalcD ?p))"
    unfolding list_all_iff
    using counts_ordered_unless_NaN [OF h1 h2 h3, of exampleDeps exampleCalcD] by blast
  have v: "map (\<lambda>(g, e). (g, CountExclusiveD e, CountInclusiveD e))
     (snd (accumulateD exampleDeps ?p)) =
     [(''A'', Finite 0, Finite (4963150609755240 / 2 ^ 46)),
      (''B'', Finite (7352815718155911 / 2 ^ 50), Finite (4963150609755240 / 2 ^ 46)),
      (''C'', Finite (9007199254740991 / 2 ^ 47), Finite (9007199254740991 / 2 ^ 47))]"
    by (simp add: evalD_defs upt_rec round_facts)
  have t: "TotalCountD (createTopNFunctionsD exampleDeps exampleCalcD ?p) =
     Finite (4963150609755240 / 2 ^ 46)"
    by (simp add: TotalCountD_createTopNFunctionsD accumulateD_total addTotal_def scaledD_def
          exampleParamsD_def round_facts)
  from h1 h2' h3' b v t show ?thesis by blast
qed

end
